theory Spec2Isabelle
  imports Main "HOL-Library.FSet" "HOL-Library.AList" "HOL-Library.Product_Lexorder"
begin

section \<open>Data model of \<open>ac3.py\<close>\<close>

text \<open>
  A cell is the coordinate pair \<open>(i, j)\<close> built from \<open>range(9)\<close>; puzzle entries are Python
  integers. A Python \<open>dict\<close> is an association list in insertion order with distinct keys
  (\<open>AList.update\<close> overwrites in place or appends, as \<open>d[k] = v\<close> does); a Python \<open>set\<close> is a
  finite set. Every implicit raise of the source is a value of type \<open>error\<close>.
\<close>

type_synonym cell = "nat \<times> nat"
type_synonym grid = "int list list"
type_synonym arc = "cell \<times> cell"
type_synonym assignment = "(cell \<times> int) list"

datatype error = IndexError | KeyError | ValueError | StopIteration

record csp =
  puzzle :: grid
  domains :: "(cell \<times> int fset) list"
  neighbors :: "(cell \<times> cell fset) list"

text \<open>
  The order in which the interpreter enumerates a \<open>set\<close> is not fixed by the language. It is
  a parameter of the model: one enumeration for sets of cells, one for sets of values.
\<close>

record iteration =
  cells_of :: "cell fset \<Rightarrow> cell list"
  values_of :: "int fset \<Rightarrow> int list"

definition enumerates :: "iteration \<Rightarrow> bool" where
  "enumerates it \<longleftrightarrow>
     (\<forall>S. fset_of_list (cells_of it S) = S \<and> distinct (cells_of it S)) \<and>
     (\<forall>D. fset_of_list (values_of it D) = D \<and> distinct (values_of it D))"

text \<open>The enumeration in ascending order, used to run the model on concrete grids.\<close>

definition ascending :: iteration where
  "ascending = \<lparr>cells_of = sorted_list_of_fset, values_of = sorted_list_of_fset\<rparr>"

subsection \<open>Subscripting\<close>

definition list_item :: "'a list \<Rightarrow> nat \<Rightarrow> error + 'a" where
  "list_item xs i = (if i < length xs then Inr (xs ! i) else Inl IndexError)"

definition getitem :: "('k \<times> 'v) list \<Rightarrow> 'k \<Rightarrow> error + 'v" where
  "getitem d k = (case map_of d k of None \<Rightarrow> Inl KeyError | Some v \<Rightarrow> Inr v)"

definition contains :: "('k \<times> 'v) list \<Rightarrow> 'k \<Rightarrow> bool" where
  "contains d k \<longleftrightarrow> map_of d k \<noteq> None"

text \<open>\<open>self.neighbors\<close> is a \<open>defaultdict(set)\<close>: reading a missing key stores an empty set
  under it, so a read returns the dictionary as well.\<close>

definition dd_get :: "(cell \<times> cell fset) list \<Rightarrow> cell \<Rightarrow> cell fset \<times> (cell \<times> cell fset) list" where
  "dd_get nb k = (case map_of nb k of
                    None \<Rightarrow> ({||}, AList.update k {||} nb)
                  | Some N \<Rightarrow> (N, nb))"

definition dd_add :: "cell \<Rightarrow> cell \<Rightarrow> (cell \<times> cell fset) list \<Rightarrow> (cell \<times> cell fset) list" where
  "dd_add k x nb = (case dd_get nb k of (N, nb1) \<Rightarrow> AList.update k (finsert x N) nb1)"

definition neighbors_get :: "csp \<Rightarrow> cell \<Rightarrow> cell fset \<times> csp" where
  "neighbors_get s k = (case dd_get (neighbors s) k of (N, nb) \<Rightarrow> (N, s\<lparr>neighbors := nb\<rparr>))"

subsection \<open>Loops that may raise\<close>

fun foldM :: "('a \<Rightarrow> 's \<Rightarrow> error + 's) \<Rightarrow> 'a list \<Rightarrow> 's \<Rightarrow> error + 's" where
  "foldM f [] s = Inr s"
| "foldM f (x # xs) s = (case f x s of Inl e \<Rightarrow> Inl e | Inr s1 \<Rightarrow> foldM f xs s1)"

fun mapM :: "('a \<Rightarrow> error + 'b) \<Rightarrow> 'a list \<Rightarrow> error + 'b list" where
  "mapM f [] = Inr []"
| "mapM f (x # xs) =
     (case f x of Inl e \<Rightarrow> Inl e
      | Inr y \<Rightarrow> (case mapM f xs of Inl e \<Rightarrow> Inl e | Inr ys \<Rightarrow> Inr (y # ys)))"

fun mapM_state :: "('a \<Rightarrow> 's \<Rightarrow> error + 'b \<times> 's) \<Rightarrow> 'a list \<Rightarrow> 's \<Rightarrow> error + 'b list \<times> 's" where
  "mapM_state f [] s = Inr ([], s)"
| "mapM_state f (x # xs) s =
     (case f x s of Inl e \<Rightarrow> Inl e
      | Inr (y, s1) \<Rightarrow>
          (case mapM_state f xs s1 of Inl e \<Rightarrow> Inl e | Inr (ys, s2) \<Rightarrow> Inr (y # ys, s2)))"

section \<open>Construction: \<open>SudokuCSP.__init__\<close>\<close>

text \<open>The pairs \<open>(i, j)\<close> in the order of the nested \<open>for i in range(9): for j in range(9)\<close>.\<close>

definition cells :: "cell list" where
  "cells = List.product [0..<9] [0..<9]"

definition puzzle_item :: "grid \<Rightarrow> nat \<Rightarrow> nat \<Rightarrow> error + int" where
  "puzzle_item g i j = (case list_item g i of Inl e \<Rightarrow> Inl e | Inr row \<Rightarrow> list_item row j)"

definition range_1_10 :: "int fset" where
  "range_1_10 = fset_of_list [1, 2, 3, 4, 5, 6, 7, 8, 9]"

definition initialize_domains_step ::
  "grid \<Rightarrow> cell \<Rightarrow> (cell \<times> int fset) list \<Rightarrow> error + (cell \<times> int fset) list" where
  "initialize_domains_step g ij d =
     (case ij of (i, j) \<Rightarrow>
        (case puzzle_item g i j of
           Inl e \<Rightarrow> Inl e
         | Inr v \<Rightarrow> Inr (AList.update (i, j) (if v = 0 then range_1_10 else {|v|}) d)))"

definition initialize_domains :: "grid \<Rightarrow> error + (cell \<times> int fset) list" where
  "initialize_domains g = foldM (initialize_domains_step g) cells []"

definition row_column_step :: "cell \<Rightarrow> nat \<Rightarrow> (cell \<times> cell fset) list \<Rightarrow> (cell \<times> cell fset) list" where
  "row_column_step ij k nb =
     (case ij of (i, j) \<Rightarrow>
        (let nb1 = (if k \<noteq> j then dd_add (i, j) (i, k) nb else nb)
         in if k \<noteq> i then dd_add (i, j) (k, j) nb1 else nb1))"

definition sub_grid_step :: "cell \<Rightarrow> cell \<Rightarrow> (cell \<times> cell fset) list \<Rightarrow> (cell \<times> cell fset) list" where
  "sub_grid_step ij rc nb = (if rc \<noteq> ij then dd_add ij rc nb else nb)"

definition initialize_neighbors_step :: "cell \<Rightarrow> (cell \<times> cell fset) list \<Rightarrow> (cell \<times> cell fset) list" where
  "initialize_neighbors_step ij nb =
     (case ij of (i, j) \<Rightarrow>
        (let nb1 = fold (row_column_step (i, j)) [0..<9] nb;
             start_row = 3 * (i div 3);
             start_col = 3 * (j div 3)
         in fold (sub_grid_step (i, j))
              (List.product [start_row..<start_row + 3] [start_col..<start_col + 3]) nb1))"

definition initialize_neighbors :: "(cell \<times> cell fset) list" where
  "initialize_neighbors = fold initialize_neighbors_step cells []"

definition SudokuCSP :: "grid \<Rightarrow> error + csp" where
  "SudokuCSP g =
     (case initialize_domains g of
        Inl e \<Rightarrow> Inl e
      | Inr d \<Rightarrow> Inr \<lparr>puzzle = g, domains = d, neighbors = initialize_neighbors\<rparr>)"

section \<open>Arc consistency: \<open>revise\<close> and \<open>ac3\<close>\<close>

definition constraint_satisfied :: "int \<Rightarrow> int \<Rightarrow> bool" where
  "constraint_satisfied x y \<longleftrightarrow> x \<noteq> y"

text \<open>One pass of the body of the loop of \<open>revise\<close>, for the value \<open>x\<close> of the copied domain;
  \<open>set.remove\<close> raises \<open>KeyError\<close> on a value that is absent.\<close>

definition revise_step :: "cell \<Rightarrow> cell \<Rightarrow> int \<Rightarrow> bool \<times> csp \<Rightarrow> error + bool \<times> csp" where
  "revise_step xi xj x rs =
     (case rs of (revised, s) \<Rightarrow>
        (case getitem (domains s) xj of
           Inl e \<Rightarrow> Inl e
         | Inr Dj \<Rightarrow>
             if \<not> fBex Dj (constraint_satisfied x) then
               (case getitem (domains s) xi of
                  Inl e \<Rightarrow> Inl e
                | Inr Di \<Rightarrow>
                    if x |\<in>| Di
                    then Inr (True, s\<lparr>domains := AList.update xi (Di |-| {|x|}) (domains s)\<rparr>)
                    else Inl KeyError)
             else Inr (revised, s)))"

definition revise :: "iteration \<Rightarrow> csp \<Rightarrow> cell \<Rightarrow> cell \<Rightarrow> error + bool \<times> csp" where
  "revise it s xi xj =
     (case getitem (domains s) xi of
        Inl e \<Rightarrow> Inl e
      | Inr Di \<Rightarrow> foldM (revise_step xi xj) (values_of it Di) (False, s))"

text \<open>The state of the \<open>while\<close> loop of \<open>ac3\<close>: the solver object, the deque and the list of
  recorded lengths.\<close>

record ac3_state =
  solver :: csp
  queue :: "arc list"
  queue_lengths :: "nat list"

fun initial_arcs :: "iteration \<Rightarrow> cell list \<Rightarrow> csp \<Rightarrow> arc list \<times> csp" where
  "initial_arcs it [] s = ([], s)"
| "initial_arcs it (xi # xs) s =
     (case neighbors_get s xi of (N, s1) \<Rightarrow>
        (case initial_arcs it xs s1 of (arcs, s2) \<Rightarrow>
           (map (Pair xi) (cells_of it N) @ arcs, s2)))"

text \<open>One iteration of the loop on a non-empty deque: \<open>Inr (Inl st)\<close> continues with \<open>st\<close>,
  \<open>Inr (Inr st)\<close> is the early \<open>return False, queue_lengths\<close>.\<close>

definition ac3_iteration :: "iteration \<Rightarrow> ac3_state \<Rightarrow> error + (ac3_state + ac3_state)" where
  "ac3_iteration it st =
     (case queue st of
        [] \<Rightarrow> Inl IndexError
      | (xi, xj) # q \<Rightarrow>
          (let ql = queue_lengths st @ [length (queue st)]
           in case revise it (solver st) xi xj of
                Inl e \<Rightarrow> Inl e
              | Inr (revised, s1) \<Rightarrow>
                  if revised then
                    (case getitem (domains s1) xi of
                       Inl e \<Rightarrow> Inl e
                     | Inr Di \<Rightarrow>
                         if Di = {||}
                         then Inr (Inr \<lparr>solver = s1, queue = q, queue_lengths = ql\<rparr>)
                         else (case neighbors_get s1 xi of (N, s2) \<Rightarrow>
                                 Inr (Inl \<lparr>solver = s2,
                                           queue = q @ map (\<lambda>xk. (xk, xi)) (cells_of it (N |-| {|xj|})),
                                           queue_lengths = ql\<rparr>)))
                  else Inr (Inl \<lparr>solver = s1, queue = q, queue_lengths = ql\<rparr>)))"

text \<open>The \<open>while queue:\<close> loop stops because an iteration either prunes a value or only
  shortens the deque: the pair (number of values left in all domains, length of the deque)
  decreases lexicographically.\<close>

definition total_size :: "csp \<Rightarrow> nat" where
  "total_size s = sum_list (map (\<lambda>kv. fcard (snd kv)) (domains s))"

definition ac3_measure :: "(ac3_state \<times> ac3_state) set" where
  "ac3_measure = inv_image (less_than <*lex*> less_than)
                   (\<lambda>st. (total_size (solver st), length (queue st)))"

lemma wf_ac3_measure: "wf ac3_measure"
  unfolding ac3_measure_def by (intro wf_inv_image wf_lex_prod wf_less_than)

lemma getitem_Inr_iff: "getitem d k = Inr v \<longleftrightarrow> map_of d k = Some v"
  by (simp add: getitem_def split: option.splits)

lemma getitem_Inl_iff: "getitem d k = Inl e \<longleftrightarrow> map_of d k = None \<and> e = KeyError"
  by (auto simp: getitem_def split: option.splits)

lemma sum_fcard_update:
  "map_of al k = Some D \<Longrightarrow>
   sum_list (map (\<lambda>kv. fcard (snd kv)) (AList.update k D' al)) + fcard D =
   sum_list (map (\<lambda>kv. fcard (snd kv)) al) + fcard D'"
  by (induction al) (auto split: if_splits)

lemma total_size_remove:
  assumes "map_of (domains s) k = Some D" and "x |\<in>| D"
  shows "total_size (s\<lparr>domains := AList.update k (D |-| {|x|}) (domains s)\<rparr>) < total_size s"
proof -
  have "fcard (D |-| {|x|}) < fcard D"
    using assms(2) by (metis fcard_fminus1_less)
  with sum_fcard_update[OF assms(1), of "D |-| {|x|}"] show ?thesis
    by (simp add: total_size_def)
qed

lemma revise_step_size:
  assumes "revise_step xi xj x (r, s) = Inr (r1, s1)"
  shows "total_size s1 \<le> total_size s \<and> (r1 \<longrightarrow> r \<or> total_size s1 < total_size s)"
proof (cases "getitem (domains s) xj")
  case (Inl e)
  with assms show ?thesis by (simp add: revise_step_def)
next
  case (Inr Dj)
  show ?thesis
  proof (cases "fBex Dj (constraint_satisfied x)")
    case True
    with assms Inr show ?thesis by (simp add: revise_step_def)
  next
    case False
    with assms Inr obtain Di where
      Di: "map_of (domains s) xi = Some Di" "x |\<in>| Di"
      and s1: "s1 = s\<lparr>domains := AList.update xi (Di |-| {|x|}) (domains s)\<rparr>"
      by (auto simp: revise_step_def getitem_Inr_iff split: sum.splits if_splits)
    from total_size_remove[OF Di] s1 show ?thesis by simp
  qed
qed

lemma revise_loop_size:
  "foldM (revise_step xi xj) vs (r, s) = Inr (r1, s1) \<Longrightarrow>
   total_size s1 \<le> total_size s \<and> (r1 \<longrightarrow> r \<or> total_size s1 < total_size s)"
proof (induction vs arbitrary: r s)
  case Nil
  then show ?case by simp
next
  case (Cons x vs)
  from Cons.prems obtain r2 s2 where
    step: "revise_step xi xj x (r, s) = Inr (r2, s2)"
    and rest: "foldM (revise_step xi xj) vs (r2, s2) = Inr (r1, s1)"
    by (auto split: sum.splits)
  from revise_step_size[OF step] Cons.IH[OF rest] show ?case by auto
qed

lemma revise_size:
  assumes "revise it s xi xj = Inr (revised, s1)"
  shows "total_size s1 \<le> total_size s" and "revised \<Longrightarrow> total_size s1 < total_size s"
  using assms revise_loop_size[of xi xj _ False s revised s1]
  by (auto simp: revise_def split: sum.splits)

lemma neighbors_get_domains: "neighbors_get s k = (N, s1) \<Longrightarrow> domains s1 = domains s"
  by (auto simp: neighbors_get_def split: prod.splits)

lemma neighbors_get_total_size: "neighbors_get s k = (N, s1) \<Longrightarrow> total_size s1 = total_size s"
  by (simp add: total_size_def neighbors_get_domains)

lemma ac3_iteration_decreases:
  assumes "ac3_iteration it st = Inr (Inl st1)"
  shows "(st1, st) \<in> ac3_measure"
proof -
  from assms obtain xi xj q where q: "queue st = (xi, xj) # q"
    by (cases "queue st") (auto simp: ac3_iteration_def)
  from assms q obtain revised s1 where
    rev: "revise it (solver st) xi xj = Inr (revised, s1)"
    by (auto simp: ac3_iteration_def Let_def split: sum.splits)
  show ?thesis
  proof (cases revised)
    case False
    with assms q rev have "solver st1 = s1" "queue st1 = q"
      by (auto simp: ac3_iteration_def Let_def)
    with revise_size(1)[OF rev] q show ?thesis
      by (auto simp: ac3_measure_def)
  next
    case True
    with assms q rev obtain N s2 where "neighbors_get s1 xi = (N, s2)" "solver st1 = s2"
      by (auto simp: ac3_iteration_def Let_def split: sum.splits if_splits prod.splits)
    with revise_size(2)[OF rev True] show ?thesis
      by (simp add: ac3_measure_def neighbors_get_total_size)
  qed
qed

function ac3_loop :: "iteration \<Rightarrow> ac3_state \<Rightarrow> error + bool \<times> ac3_state" where
  "ac3_loop it st =
     (if queue st = [] then Inr (True, st)
      else (case ac3_iteration it st of
              Inl e \<Rightarrow> Inl e
            | Inr (Inr st1) \<Rightarrow> Inr (False, st1)
            | Inr (Inl st1) \<Rightarrow> ac3_loop it st1))"
  by pat_completeness auto
termination
  by (relation "inv_image ac3_measure snd") (auto simp: wf_ac3_measure ac3_iteration_decreases)

declare ac3_loop.simps [simp del]

text \<open>\<open>ac3\<close> returns \<open>(result, queue_lengths)\<close> and leaves the pruned domains in the solver
  object; the model returns the object as well, and the line printed on failure.\<close>

definition ac3_start :: "iteration \<Rightarrow> csp \<Rightarrow> ac3_state" where
  "ac3_start it s =
     (case initial_arcs it (map fst (domains s)) s of (arcs, s1) \<Rightarrow>
        \<lparr>solver = s1, queue = arcs, queue_lengths = []\<rparr>)"

definition ac3 :: "iteration \<Rightarrow> csp \<Rightarrow> error + (bool \<times> nat list) \<times> csp \<times> string list" where
  "ac3 it s =
     (case ac3_loop it (ac3_start it s) of
        Inl e \<Rightarrow> Inl e
      | Inr (ok, st) \<Rightarrow>
          Inr ((ok, queue_lengths st), solver st,
               if ok then [] else [''Puzzle has no solution'']))"

text \<open>To speak of the steps of a run: \<open>ac3_head it n st\<close> is the state of the loop at the
  head of its \<open>n\<close>-th iteration after \<open>st\<close>, if the loop gets there.\<close>

fun ac3_head :: "iteration \<Rightarrow> nat \<Rightarrow> ac3_state \<Rightarrow> ac3_state option" where
  "ac3_head it 0 st = Some st"
| "ac3_head it (Suc n) st =
     (if queue st = [] then None
      else (case ac3_iteration it st of
              Inr (Inl st1) \<Rightarrow> ac3_head it n st1
            | _ \<Rightarrow> None))"

definition is_solved :: "csp \<Rightarrow> bool" where
  "is_solved s \<longleftrightarrow> list_all (\<lambda>kv. fcard (snd kv) = 1) (domains s)"

text \<open>\<open>next(iter(d))\<close>: the first value in iteration order, \<open>StopIteration\<close> on an empty set.\<close>

definition next_iter :: "iteration \<Rightarrow> int fset \<Rightarrow> error + int" where
  "next_iter it D = (case values_of it D of [] \<Rightarrow> Inl StopIteration | v # _ \<Rightarrow> Inr v)"

definition get_solution :: "iteration \<Rightarrow> csp \<Rightarrow> error + grid" where
  "get_solution it s =
     mapM (\<lambda>i. mapM (\<lambda>j. case getitem (domains s) (i, j) of
                              Inl e \<Rightarrow> Inl e
                            | Inr D \<Rightarrow> next_iter it D) [0..<9]) [0..<9]"

section \<open>Backtracking search\<close>

text \<open>\<open>min(xs, key=f)\<close> returns the first element whose key is least.\<close>

fun first_min :: "nat \<times> 'a \<Rightarrow> (nat \<times> 'a) list \<Rightarrow> nat \<times> 'a" where
  "first_min b [] = b"
| "first_min b (x # xs) = first_min (if fst x < fst b then x else b) xs"

definition select_unassigned_variable :: "csp \<Rightarrow> assignment \<Rightarrow> error + cell" where
  "select_unassigned_variable s a =
     (let unassigned_variables = filter (\<lambda>v. \<not> contains a v) (map fst (domains s))
      in case mapM (\<lambda>var. case getitem (domains s) var of
                              Inl e \<Rightarrow> Inl e
                            | Inr D \<Rightarrow> Inr (fcard D, var)) unassigned_variables of
           Inl e \<Rightarrow> Inl e
         | Inr [] \<Rightarrow> Inl ValueError
         | Inr (kv # kvs) \<Rightarrow> Inr (snd (first_min kv kvs)))"

fun is_consistent_loop :: "int \<Rightarrow> assignment \<Rightarrow> cell list \<Rightarrow> bool" where
  "is_consistent_loop v a [] = True"
| "is_consistent_loop v a (neighbor # ns) =
     (if contains a neighbor \<and> getitem a neighbor = Inr v then False
      else is_consistent_loop v a ns)"

definition is_consistent :: "iteration \<Rightarrow> csp \<Rightarrow> cell \<Rightarrow> int \<Rightarrow> assignment \<Rightarrow> bool \<times> csp" where
  "is_consistent it s var v a =
     (case neighbors_get s var of (N, s1) \<Rightarrow> (is_consistent_loop v a (cells_of it N), s1))"

definition count_constraints_step :: "csp \<Rightarrow> int \<Rightarrow> assignment \<Rightarrow> cell \<Rightarrow> nat \<Rightarrow> error + nat" where
  "count_constraints_step s v a neighbor count =
     (if \<not> contains a neighbor then
        (case getitem (domains s) neighbor of
           Inl e \<Rightarrow> Inl e
         | Inr D \<Rightarrow> Inr (count + fcard (ffilter (\<lambda>nv. \<not> constraint_satisfied v nv) D)))
      else Inr count)"

definition count_constraints ::
  "iteration \<Rightarrow> csp \<Rightarrow> cell \<Rightarrow> int \<Rightarrow> assignment \<Rightarrow> error + nat \<times> csp" where
  "count_constraints it s var v a =
     (case neighbors_get s var of (N, s1) \<Rightarrow>
        (case foldM (count_constraints_step s1 v a) (cells_of it N) 0 of
           Inl e \<Rightarrow> Inl e
         | Inr count \<Rightarrow> Inr (count, s1)))"

text \<open>\<open>list.sort(key=...)\<close> computes the key of every element, in list order, and sorts
  stably by it, as \<open>sort_key\<close> (insertion sort) does.\<close>

definition least_constraining_values ::
  "iteration \<Rightarrow> csp \<Rightarrow> cell \<Rightarrow> assignment \<Rightarrow> error + int list \<times> csp" where
  "least_constraining_values it s var a =
     (case getitem (domains s) var of
        Inl e \<Rightarrow> Inl e
      | Inr D \<Rightarrow>
          (let vals = values_of it D
           in case mapM_state (\<lambda>v s1. count_constraints it s1 var v a) vals s of
                Inl e \<Rightarrow> Inl e
              | Inr (counts, s1) \<Rightarrow> Inr (map snd (sort_key fst (zip counts vals)), s1)))"

text \<open>
  \<open>backtrack\<close> mutates the dictionary it is given and returns that same dictionary or
  \<open>None\<close>, so the model threads the solver object and the assignment through every call and
  returns \<open>(found, solver, assignment, log)\<close>: the Python result is the assignment when
  \<open>found\<close> holds and \<open>None\<close> otherwise. \<open>At_entry\<close> is the start of the body of \<open>backtrack\<close>,
  \<open>In_loop var vs\<close> the head of its \<open>for\<close> loop with the values \<open>vs\<close> still to try; the
  position comes with the recursion depth of the frame.

  The log is not part of the program: it records each entry of \<open>backtrack\<close> with its
  recursion depth (the number of \<open>backtrack\<close> frames below it on the stack) and each
  \<open>assignment[var] = value\<close>.
\<close>

datatype event = Enter nat | Try cell int

datatype position = At_entry | In_loop cell "int list"

type_synonym search_state = "csp \<times> assignment \<times> event list"

partial_function (option) backtrack_from ::
  "iteration \<Rightarrow> position \<times> nat \<Rightarrow> search_state \<Rightarrow> (error + bool \<times> search_state) option" where
  "backtrack_from it at st =
     (case st of (s, a, lg) \<Rightarrow>
     (case at of (pos, depth) \<Rightarrow>
        (case pos of
           At_entry \<Rightarrow>
             if length a = 81 then Some (Inr (True, s, a, lg @ [Enter depth]))
             else (case select_unassigned_variable s a of
                     Inl e \<Rightarrow> Some (Inl e)
                   | Inr var \<Rightarrow>
                       (case least_constraining_values it s var a of
                          Inl e \<Rightarrow> Some (Inl e)
                        | Inr ordered \<Rightarrow>
                            backtrack_from it (In_loop var (fst ordered), depth)
                              (snd ordered, a, lg @ [Enter depth])))
         | In_loop var vals \<Rightarrow>
             (case vals of
                [] \<Rightarrow> Some (Inr (False, s, a, lg))
              | v # vs \<Rightarrow>
                  (case is_consistent it s var v a of (ok, s1) \<Rightarrow>
                     if ok then
                       Option.bind
                         (backtrack_from it (At_entry, Suc depth)
                            (s1, AList.update var v a, lg @ [Try var v]))
                         (\<lambda>result. case result of
                            Inl e \<Rightarrow> Some (Inl e)
                          | Inr r \<Rightarrow>
                              (case r of (found, s2, a2, lg2) \<Rightarrow>
                                 if found then Some (Inr (True, s2, a2, lg2))
                                 else if contains a2 var
                                 then backtrack_from it (In_loop var vs, depth)
                                        (s2, AList.delete var a2, lg2)
                                 else Some (Inl KeyError)))
                     else backtrack_from it (In_loop var vs, depth) (s1, a, lg))))))"

definition backtrack :: "iteration \<Rightarrow> nat \<Rightarrow> search_state \<Rightarrow> (error + bool \<times> search_state) option" where
  "backtrack it depth st = backtrack_from it (At_entry, depth) st"

definition backtracking_search :: "iteration \<Rightarrow> csp \<Rightarrow> (error + bool \<times> search_state) option" where
  "backtracking_search it s = backtrack it 0 (s, [], [])"

section \<open>\<open>solve_sudoku\<close>\<close>

text \<open>The result is \<open>None\<close> when the search does not return, \<open>Some (Inl e)\<close> when an exception
  escapes, and otherwise \<open>Some (Inr ((solution, queue_lengths), printed))\<close>, the returned pair
  and the lines written with \<open>print\<close>.\<close>

definition solved_puzzle :: "assignment \<Rightarrow> grid" where
  "solved_puzzle solution =
     map (\<lambda>i. map (\<lambda>j. case map_of solution (i, j) of None \<Rightarrow> 0 | Some v \<Rightarrow> v) [0..<9]) [0..<9]"

definition msg_solved :: string where
  "msg_solved = ''Sudoku fully solved by CSP....Printing queue lengths at each step of the AC-3 Algorithm in an array''"

definition msg_backtrack :: string where
  "msg_backtrack = ''Sudoku not fully solved by CSP....Running Backtrack algorithm''"

definition solve_sudoku ::
  "iteration \<Rightarrow> grid \<Rightarrow> (error + (grid option \<times> nat list) \<times> string list) option" where
  "solve_sudoku it g =
     (case SudokuCSP g of
        Inl e \<Rightarrow> Some (Inl e)
      | Inr csp0 \<Rightarrow>
          (case ac3 it csp0 of
             Inl e \<Rightarrow> Some (Inl e)
           | Inr ((ac3_result, lens), csp1, out) \<Rightarrow>
               if ac3_result then
                 if is_solved csp1 then
                   (case get_solution it csp1 of
                      Inl e \<Rightarrow> Some (Inl e)
                    | Inr sol \<Rightarrow> Some (Inr ((Some sol, lens), out @ [msg_solved])))
                 else
                   (case backtracking_search it csp1 of
                      None \<Rightarrow> None
                    | Some (Inl e) \<Rightarrow> Some (Inl e)
                    | Some (Inr (found, csp2, solution, lg)) \<Rightarrow>
                        if found \<and> solution \<noteq> []
                        then Some (Inr ((Some (solved_puzzle solution), lens),
                                        out @ [msg_backtrack]))
                        else Some (Inr ((None, lens), out @ [msg_backtrack])))
               else Some (Inr ((None, lens), out))))"

section \<open>The neighbour relation\<close>

text \<open>Two cells must differ when they are distinct and share a row, a column or a 3x3
  sub-block; \<open>peers c\<close> is the set of such cells for \<open>c\<close>.\<close>

definition related :: "cell \<Rightarrow> cell \<Rightarrow> bool" where
  "related c n \<longleftrightarrow>
     n \<noteq> c \<and> (fst n = fst c \<or> snd n = snd c \<or>
                (fst n div 3 = fst c div 3 \<and> snd n div 3 = snd c div 3))"

definition peers :: "cell \<Rightarrow> cell fset" where
  "peers c = ffilter (related c) (fset_of_list cells)"

definition nbset :: "(cell \<times> cell fset) list \<Rightarrow> cell \<Rightarrow> cell fset" where
  "nbset nb k = (case map_of nb k of None \<Rightarrow> {||} | Some N \<Rightarrow> N)"

lemma set_cells: "set cells = {0..<9} \<times> {0..<9}"
  by (simp add: cells_def)

lemma in_cells_iff: "(i, j) \<in> set cells \<longleftrightarrow> i < 9 \<and> j < 9"
  by (simp add: set_cells)

lemma distinct_cells: "distinct cells"
  by (simp add: cells_def distinct_product)

lemma length_cells: "length cells = 81"
  by (simp add: cells_def)

lemma nbset_dd_add:
  "nbset (dd_add k x nb) k' = (if k' = k then finsert x (nbset nb k) else nbset nb k')"
  by (auto simp: dd_add_def dd_get_def nbset_def update_conv' split: option.splits)

lemma nbset_nonempty: "nbset nb k \<noteq> {||} \<Longrightarrow> map_of nb k = Some (nbset nb k)"
  by (auto simp: nbset_def split: option.splits)

lemma nbset_row_column_step:
  "nbset (row_column_step (i, j) k nb) c =
     (if c = (i, j)
      then nbset nb c |\<union>| fset_of_list ([(i, k). k \<noteq> j] @ [(k, j). k \<noteq> i])
      else nbset nb c)"
  by (auto simp: row_column_step_def Let_def nbset_dd_add)

lemma nbset_row_column_loop:
  "nbset (fold (row_column_step (i, j)) ks nb) c =
     (if c = (i, j)
      then nbset nb c |\<union>| fset_of_list ([(i, k). k \<leftarrow> ks, k \<noteq> j] @ [(k, j). k \<leftarrow> ks, k \<noteq> i])
      else nbset nb c)"
proof (induction ks arbitrary: nb)
  case Nil
  then show ?case by simp
next
  case (Cons k ks)
  show ?case
    by (simp only: fold_simps Cons.IH nbset_row_column_step) auto
qed

lemma nbset_sub_grid_loop:
  "nbset (fold (sub_grid_step ij) rcs nb) c =
     (if c = ij then nbset nb c |\<union>| fset_of_list (filter (\<lambda>rc. rc \<noteq> ij) rcs) else nbset nb c)"
proof (induction rcs arbitrary: nb)
  case Nil
  then show ?case by simp
next
  case (Cons rc rcs)
  show ?case
    by (simp only: fold_simps Cons.IH) (auto simp: sub_grid_step_def nbset_dd_add)
qed

definition built :: "cell \<Rightarrow> cell fset" where
  "built ij = (case ij of (i, j) \<Rightarrow>
     fset_of_list ([(i, k). k \<leftarrow> [0..<9], k \<noteq> j] @ [(k, j). k \<leftarrow> [0..<9], k \<noteq> i]) |\<union>|
     fset_of_list (filter (\<lambda>rc. rc \<noteq> (i, j))
        (List.product [3 * (i div 3)..<3 * (i div 3) + 3] [3 * (j div 3)..<3 * (j div 3) + 3])))"

lemma nbset_initialize_neighbors_step:
  "nbset (initialize_neighbors_step ij nb) c =
     (if c = ij then nbset nb c |\<union>| built ij else nbset nb c)"
  by (cases ij)
     (simp add: initialize_neighbors_step_def Let_def nbset_sub_grid_loop nbset_row_column_loop
        built_def funion_assoc)

lemma nbset_initialize_neighbors_loop:
  "nbset (fold initialize_neighbors_step cs nb) c =
     (if c \<in> set cs then nbset nb c |\<union>| built c else nbset nb c)"
proof (induction cs arbitrary: nb)
  case Nil
  then show ?case by simp
next
  case (Cons a cs)
  show ?case
    by (simp only: fold_simps Cons.IH nbset_initialize_neighbors_step) auto
qed

lemma built_eq_peers:
  assumes "c \<in> set cells"
  shows "built c = peers c"
proof -
  obtain i j where c: "c = (i, j)" by (cases c)
  with assms have ij: "i < 9" "j < 9" by (simp_all add: in_cells_iff)
  show ?thesis
  proof (rule fset_eqI)
    fix n :: cell
    obtain r k where n: "n = (r, k)" by (cases n)
    have blk: "\<And>a b::nat. (3 * (b div 3) \<le> a \<and> a < 3 * (b div 3) + 3) \<longleftrightarrow> a div 3 = b div 3"
      by auto
    have lt: "\<And>a b::nat. a div 3 = b div 3 \<Longrightarrow> b < 9 \<Longrightarrow> a < 9"
      by arith
    show "n |\<in>| built c \<longleftrightarrow> n |\<in>| peers c"
      unfolding c n built_def peers_def related_def
      using ij by (auto simp: fset_of_list_elem set_cells blk dest: lt)
  qed
qed

lemma nbset_initialize_neighbors:
  "c \<in> set cells \<Longrightarrow> nbset initialize_neighbors c = peers c"
proof -
  assume c: "c \<in> set cells"
  have "nbset [] c = {||}" by (simp add: nbset_def)
  with c show ?thesis
    by (simp add: initialize_neighbors_def nbset_initialize_neighbors_loop built_eq_peers)
qed


lemma fcard_peers_all: "list_all (\<lambda>c. fcard (peers c) = 20) cells"
  by code_simp

lemma fcard_peers: "c \<in> set cells \<Longrightarrow> fcard (peers c) = 20"
  using fcard_peers_all by (simp add: list_all_iff)

lemma map_of_initialize_neighbors:
  assumes "c \<in> set cells"
  shows "map_of initialize_neighbors c = Some (peers c)"
proof -
  have "peers c \<noteq> {||}"
    using fcard_peers[OF assms] by (auto simp: fcard_fempty)
  with nbset_initialize_neighbors[OF assms] nbset_nonempty[of initialize_neighbors c]
  show ?thesis by simp
qed

lemma peers_iff: "n |\<in>| peers c \<longleftrightarrow> n \<in> set cells \<and> related c n"
  by (auto simp: peers_def fset_of_list_elem)

lemma related_sym: "related c n \<longleftrightarrow> related n c"
  by (auto simp: related_def)

lemma peers_sym: "c \<in> set cells \<Longrightarrow> n |\<in>| peers c \<Longrightarrow> c |\<in>| peers n"
  using related_sym by (auto simp: peers_iff)

lemma peers_neq: "n |\<in>| peers c \<Longrightarrow> n \<noteq> c"
  by (simp add: peers_iff related_def)

lemma peers_in_cells: "n |\<in>| peers c \<Longrightarrow> n \<in> set cells"
  by (simp add: peers_iff)

lemma SudokuCSP_neighbors: "SudokuCSP g = Inr s \<Longrightarrow> neighbors s = initialize_neighbors"
  by (auto simp: SudokuCSP_def split: sum.splits)

text \<open>
  Claim C9. For every cell \<open>(i, j)\<close> with \<open>i, j < 9\<close> the set stored under \<open>(i, j)\<close> by
  \<open>initialize_neighbors\<close> is exactly the set of the other cells in its row, its column or its
  3x3 sub-block; it has 20 elements; the relation is symmetric; and the table of a solver
  built from any puzzle is this same table, whatever the puzzle holds.
\<close>

theorem initialize_neighbors_exact:
  assumes "i < 9" and "j < 9"
  shows "map_of initialize_neighbors (i, j) = Some (peers (i, j))
         \<and> (\<forall>n. n |\<in>| peers (i, j) \<longleftrightarrow>
                  n \<in> set cells \<and> n \<noteq> (i, j) \<and>
                  (fst n = i \<or> snd n = j \<or> (fst n div 3 = i div 3 \<and> snd n div 3 = j div 3)))
         \<and> fcard (peers (i, j)) = 20
         \<and> (\<forall>k l. k < 9 \<and> l < 9 \<longrightarrow> ((k, l) |\<in>| peers (i, j) \<longleftrightarrow> (i, j) |\<in>| peers (k, l)))
         \<and> (\<forall>g s. SudokuCSP g = Inr s \<longrightarrow> map_of (neighbors s) (i, j) = Some (peers (i, j)))"
proof -
  from assms have c: "(i, j) \<in> set cells" by (simp add: in_cells_iff)
  have rel: "\<forall>n. n |\<in>| peers (i, j) \<longleftrightarrow>
                  n \<in> set cells \<and> n \<noteq> (i, j) \<and>
                  (fst n = i \<or> snd n = j \<or> (fst n div 3 = i div 3 \<and> snd n div 3 = j div 3))"
    by (simp add: peers_iff related_def)
  have sym: "\<forall>k l. k < 9 \<and> l < 9 \<longrightarrow> ((k, l) |\<in>| peers (i, j) \<longleftrightarrow> (i, j) |\<in>| peers (k, l))"
    using c peers_sym by (auto simp: in_cells_iff)
  have indep: "\<forall>g s. SudokuCSP g = Inr s \<longrightarrow> map_of (neighbors s) (i, j) = Some (peers (i, j))"
    using map_of_initialize_neighbors[OF c] by (simp add: SudokuCSP_neighbors)
  from map_of_initialize_neighbors[OF c] rel fcard_peers[OF c] sym indep
  show ?thesis by blast
qed

theorem initialize_neighbors_exact_witness:
  "(4::nat) < 9 \<and> map_of initialize_neighbors (4, 4) = Some (peers (4, 4))
   \<and> fcard (peers (4, 4)) = 20 \<and> (0, 4) |\<in>| peers (4, 4) \<and> (4, 4) |\<in>| peers (0, 4)
   \<and> (3, 5) |\<in>| peers (4, 4) \<and> (0, 0) |\<notin>| peers (4, 4)"
proof -
  have "(0, 4) |\<in>| peers (4, 4)" "(3, 5) |\<in>| peers (4, 4)" "(0, 0) |\<notin>| peers (4, 4)"
       "(4, 4) |\<in>| peers (0, 4)"
    by (simp_all add: peers_iff related_def in_cells_iff)
  moreover have "(4::nat) < 9" by simp
  ultimately show ?thesis
    using initialize_neighbors_exact[of 4 4] by blast
qed

section \<open>Well-formed solver objects\<close>

definition csp_ok :: "csp \<Rightarrow> bool" where
  "csp_ok s \<longleftrightarrow> map fst (domains s) = cells \<and> neighbors s = initialize_neighbors"

definition dom_at :: "csp \<Rightarrow> cell \<Rightarrow> int fset" where
  "dom_at s c = (case map_of (domains s) c of None \<Rightarrow> {||} | Some D \<Rightarrow> D)"

definition set_dom :: "csp \<Rightarrow> cell \<Rightarrow> int fset \<Rightarrow> csp" where
  "set_dom s c D = s\<lparr>domains := AList.update c D (domains s)\<rparr>"

definition pruned :: "int fset \<Rightarrow> int fset \<Rightarrow> int fset" where
  "pruned Di Dj = ffilter (\<lambda>x. fBex Dj (constraint_satisfied x)) Di"

lemma map_of_keys: "k \<in> set (map fst al) \<Longrightarrow> \<exists>v. map_of al k = Some v"
  by (induction al) auto

lemma csp_ok_lookup:
  "csp_ok s \<Longrightarrow> c \<in> set cells \<Longrightarrow> map_of (domains s) c = Some (dom_at s c)"
  using map_of_keys[of c "domains s"] by (auto simp: csp_ok_def dom_at_def)

lemma getitem_ok: "csp_ok s \<Longrightarrow> c \<in> set cells \<Longrightarrow> getitem (domains s) c = Inr (dom_at s c)"
  by (simp add: getitem_Inr_iff csp_ok_lookup)

lemma neighbors_get_ok: "csp_ok s \<Longrightarrow> c \<in> set cells \<Longrightarrow> neighbors_get s c = (peers c, s)"
  by (simp add: neighbors_get_def dd_get_def csp_ok_def map_of_initialize_neighbors)

lemma dom_at_set_dom: "dom_at (set_dom s c D) c' = (if c' = c then D else dom_at s c')"
  by (simp add: dom_at_def set_dom_def update_conv')

lemma csp_ok_set_dom: "csp_ok s \<Longrightarrow> c \<in> set cells \<Longrightarrow> csp_ok (set_dom s c D)"
  by (simp add: csp_ok_def set_dom_def update_keys)

lemma set_dom_same: "map_of (domains s) c = Some D \<Longrightarrow> set_dom s c D = s"
  by (simp add: set_dom_def update_triv)

lemma set_dom_twice: "set_dom (set_dom s c D) c D' = set_dom s c D'"
  by (simp add: set_dom_def)

lemma puzzle_set_dom: "puzzle (set_dom s c D) = puzzle s"
  by (simp add: set_dom_def)

lemma domains_set_dom: "domains (set_dom s c D) = AList.update c D (domains s)"
  by (simp add: set_dom_def)

subsection \<open>\<open>revise\<close>\<close>

definition unsupported :: "int fset \<Rightarrow> int \<Rightarrow> bool" where
  "unsupported Dj x \<longleftrightarrow> \<not> fBex Dj (constraint_satisfied x)"

lemma revise_step_eq:
  assumes "map_of (domains s) xj = Some Dj" and "map_of (domains s) xi = Some Di" and "x |\<in>| Di"
  shows "revise_step xi xj x (r, s) =
           (if unsupported Dj x then Inr (True, set_dom s xi (Di |-| {|x|})) else Inr (r, s))"
  using assms by (simp add: revise_step_def getitem_def set_dom_def unsupported_def)

lemma revise_loop:
  assumes "xi \<noteq> xj" and "map_of (domains s) xj = Some Dj" and "map_of (domains s) xi = Some Di"
    and "set vs \<subseteq> fset Di" and "distinct vs"
  shows "foldM (revise_step xi xj) vs (r, s) =
           Inr (r \<or> (\<exists>x\<in>set vs. unsupported Dj x),
                set_dom s xi (Di |-| fset_of_list (filter (unsupported Dj) vs)))"
  using assms
proof (induction vs arbitrary: r s Di)
  case Nil
  then show ?case by (simp add: set_dom_same)
next
  case (Cons x vs)
  have x: "x |\<in>| Di" using Cons.prems(4) by simp
  note step = revise_step_eq[OF Cons.prems(2,3) x, of r]
  show ?case
  proof (cases "unsupported Dj x")
    case False
    have "foldM (revise_step xi xj) vs (r, s) =
           Inr (r \<or> (\<exists>x\<in>set vs. unsupported Dj x),
                set_dom s xi (Di |-| fset_of_list (filter (unsupported Dj) vs)))"
      using Cons.prems by (intro Cons.IH) simp_all
    with step False show ?thesis by simp
  next
    case True
    let ?s1 = "set_dom s xi (Di |-| {|x|})"
    have a: "map_of (domains ?s1) xj = Some Dj"
      using Cons.prems(1,2) by (simp add: domains_set_dom update_conv')
    have b: "map_of (domains ?s1) xi = Some (Di |-| {|x|})"
      by (simp add: domains_set_dom update_conv')
    have c: "set vs \<subseteq> fset (Di |-| {|x|})"
      using Cons.prems(4,5) by auto
    have d: "distinct vs" using Cons.prems(5) by simp
    have "foldM (revise_step xi xj) vs (True, ?s1) =
           Inr (True \<or> (\<exists>x\<in>set vs. unsupported Dj x),
                set_dom ?s1 xi ((Di |-| {|x|}) |-| fset_of_list (filter (unsupported Dj) vs)))"
      by (rule Cons.IH[OF Cons.prems(1) a b c d])
    moreover have "(Di |-| {|x|}) |-| fset_of_list (filter (unsupported Dj) vs)
         = Di |-| fset_of_list (filter (unsupported Dj) (x # vs))"
      using True by auto
    ultimately show ?thesis using step True by (simp add: set_dom_twice)
  qed
qed

lemma enumerates_values:
  assumes "enumerates it"
  shows "set (values_of it D) = fset D" and "distinct (values_of it D)"
proof -
  from assms have "fset_of_list (values_of it D) = D" and d: "distinct (values_of it D)"
    by (simp_all add: enumerates_def)
  then have "fset (fset_of_list (values_of it D)) = fset D" by simp
  then show "set (values_of it D) = fset D" by (simp add: fset_of_list.rep_eq)
  show "distinct (values_of it D)" by (rule d)
qed

lemma enumerates_cells:
  assumes "enumerates it"
  shows "set (cells_of it S) = fset S" and "distinct (cells_of it S)"
proof -
  from assms have "fset_of_list (cells_of it S) = S" and d: "distinct (cells_of it S)"
    by (simp_all add: enumerates_def)
  then have "fset (fset_of_list (cells_of it S)) = fset S" by simp
  then show "set (cells_of it S) = fset S" by (simp add: fset_of_list.rep_eq)
  show "distinct (cells_of it S)" by (rule d)
qed


lemma pruned_iff: "x |\<in>| pruned Di Dj \<longleftrightarrow> x |\<in>| Di \<and> \<not> unsupported Dj x"
  by (auto simp: pruned_def unsupported_def)

lemma unsupported_iff: "unsupported Dj x \<longleftrightarrow> (\<forall>y. y |\<in>| Dj \<longrightarrow> y = x)"
  by (auto simp: unsupported_def constraint_satisfied_def)

lemma pruned_subset: "pruned Di Dj |\<subseteq>| Di"
  by (auto simp: pruned_iff)

lemma revise_ok:
  assumes "enumerates it" and "csp_ok s" and "xi \<in> set cells" and "xj \<in> set cells" and "xi \<noteq> xj"
  shows "revise it s xi xj =
           Inr (pruned (dom_at s xi) (dom_at s xj) \<noteq> dom_at s xi,
                set_dom s xi (pruned (dom_at s xi) (dom_at s xj)))"
proof -
  let ?Di = "dom_at s xi" and ?Dj = "dom_at s xj"
  let ?vs = "values_of it ?Di"
  note vs = enumerates_values[OF assms(1), of ?Di]
  have e1: "?Di |-| fset_of_list (filter (unsupported ?Dj) ?vs) = pruned ?Di ?Dj"
  proof (rule fset_eqI)
    fix x show "x |\<in>| ?Di |-| fset_of_list (filter (unsupported ?Dj) ?vs) \<longleftrightarrow> x |\<in>| pruned ?Di ?Dj"
      using vs(1) by (auto simp: fset_of_list_elem pruned_iff)
  qed
  have e2: "(\<exists>x\<in>set ?vs. unsupported ?Dj x) \<longleftrightarrow> pruned ?Di ?Dj \<noteq> ?Di"
  proof
    assume "\<exists>x\<in>set ?vs. unsupported ?Dj x"
    then obtain x where "x |\<in>| ?Di" "unsupported ?Dj x" using vs(1) by auto
    then have "x |\<notin>| pruned ?Di ?Dj" "x |\<in>| ?Di" by (simp_all add: pruned_iff)
    then show "pruned ?Di ?Dj \<noteq> ?Di" by metis
  next
    assume "pruned ?Di ?Dj \<noteq> ?Di"
    with pruned_subset[of ?Di ?Dj] obtain x where "x |\<in>| ?Di" "x |\<notin>| pruned ?Di ?Dj"
      by blast
    then show "\<exists>x\<in>set ?vs. unsupported ?Dj x" using vs(1) by (auto simp: pruned_iff)
  qed
  have "revise it s xi xj = foldM (revise_step xi xj) ?vs (False, s)"
    using csp_ok_lookup[OF assms(2,3)] by (simp add: revise_def getitem_def)
  also have "\<dots> = Inr (False \<or> (\<exists>x\<in>set ?vs. unsupported ?Dj x),
                set_dom s xi (?Di |-| fset_of_list (filter (unsupported ?Dj) ?vs)))"
    by (rule revise_loop[OF assms(5) csp_ok_lookup[OF assms(2,4)] csp_ok_lookup[OF assms(2,3)]])
       (simp_all add: vs)
  finally show ?thesis by (simp only: e1 e2 simp_thms)
qed

subsection \<open>One iteration of \<open>ac3\<close> on a well-formed state\<close>

definition arcs_ok :: "arc list \<Rightarrow> bool" where
  "arcs_ok q \<longleftrightarrow> (\<forall>a\<in>set q. fst a \<in> set cells \<and> snd a |\<in>| peers (fst a))"

definition ac3_inv :: "ac3_state \<Rightarrow> bool" where
  "ac3_inv st \<longleftrightarrow> csp_ok (solver st) \<and> arcs_ok (queue st)"

text \<open>The three outcomes of an iteration that pops the arc \<open>(xi, xj)\<close>.\<close>

definition ac3_outcome :: "iteration \<Rightarrow> ac3_state \<Rightarrow> ac3_state + ac3_state" where
  "ac3_outcome it st =
     (case queue st of
        [] \<Rightarrow> Inl st
      | (xi, xj) # q \<Rightarrow>
          (let s = solver st;
               D = pruned (dom_at s xi) (dom_at s xj);
               ql = queue_lengths st @ [length (queue st)]
           in if D = dom_at s xi then Inl \<lparr>solver = s, queue = q, queue_lengths = ql\<rparr>
              else if D = {||} then Inr \<lparr>solver = set_dom s xi D, queue = q, queue_lengths = ql\<rparr>
              else Inl \<lparr>solver = set_dom s xi D,
                        queue = q @ map (\<lambda>xk. (xk, xi)) (cells_of it (peers xi |-| {|xj|})),
                        queue_lengths = ql\<rparr>))"

lemma ac3_iteration_ok:
  assumes "enumerates it" and "csp_ok (solver st)" and "arcs_ok (queue st)" and "queue st \<noteq> []"
  shows "ac3_iteration it st = Inr (ac3_outcome it st)"
proof -
  from assms(4) obtain xi xj q where q: "queue st = (xi, xj) # q"
    by (cases "queue st") auto
  with assms(3) have xi: "xi \<in> set cells" and xj: "xj |\<in>| peers xi"
    by (auto simp: arcs_ok_def)
  from xj have xj': "xj \<in> set cells" and ne: "xi \<noteq> xj"
    using peers_in_cells peers_neq by blast+
  let ?s = "solver st"
  let ?D = "pruned (dom_at ?s xi) (dom_at ?s xj)"
  note rev = revise_ok[OF assms(1,2) xi xj' ne]
  show ?thesis
  proof (cases "?D = dom_at ?s xi")
    case True
    then have "set_dom ?s xi ?D = ?s"
      using csp_ok_lookup[OF assms(2) xi] by (simp add: set_dom_same)
    with True rev q show ?thesis
      by (simp add: ac3_iteration_def ac3_outcome_def Let_def)
  next
    case False
    have ok1: "csp_ok (set_dom ?s xi ?D)" by (rule csp_ok_set_dom[OF assms(2) xi])
    have g: "getitem (domains (set_dom ?s xi ?D)) xi = Inr ?D"
      using getitem_ok[OF ok1 xi] by (simp add: dom_at_set_dom)
    have n: "neighbors_get (set_dom ?s xi ?D) xi = (peers xi, set_dom ?s xi ?D)"
      by (rule neighbors_get_ok[OF ok1 xi])
    from False rev q g n show ?thesis
      by (simp add: ac3_iteration_def ac3_outcome_def Let_def)
  qed
qed

lemma ac3_outcome_cases:
  assumes "queue st = (xi, xj) # q"
  obtains
    (same) "pruned (dom_at (solver st) xi) (dom_at (solver st) xj) = dom_at (solver st) xi"
      "ac3_outcome it st =
         Inl \<lparr>solver = solver st, queue = q, queue_lengths = queue_lengths st @ [Suc (length q)]\<rparr>"
  | (emptied) "pruned (dom_at (solver st) xi) (dom_at (solver st) xj) = {||}"
      "dom_at (solver st) xi \<noteq> {||}"
      "ac3_outcome it st =
         Inr \<lparr>solver = set_dom (solver st) xi {||}, queue = q,
              queue_lengths = queue_lengths st @ [Suc (length q)]\<rparr>"
  | (shrunk) "pruned (dom_at (solver st) xi) (dom_at (solver st) xj) \<noteq> dom_at (solver st) xi"
      "pruned (dom_at (solver st) xi) (dom_at (solver st) xj) \<noteq> {||}"
      "ac3_outcome it st =
         Inl \<lparr>solver = set_dom (solver st) xi (pruned (dom_at (solver st) xi) (dom_at (solver st) xj)),
              queue = q @ map (\<lambda>xk. (xk, xi)) (cells_of it (peers xi |-| {|xj|})),
              queue_lengths = queue_lengths st @ [Suc (length q)]\<rparr>"
  using assms by (auto simp: ac3_outcome_def Let_def split: if_splits)

lemma arcs_ok_append:
  assumes "enumerates it" and "xi \<in> set cells" and "arcs_ok q"
  shows "arcs_ok (q @ map (\<lambda>xk. (xk, xi)) (cells_of it (peers xi |-| {|xj|})))"
proof -
  have "fst a \<in> set cells \<and> snd a |\<in>| peers (fst a)"
    if "a \<in> set (map (\<lambda>xk. (xk, xi)) (cells_of it (peers xi |-| {|xj|})))" for a
  proof -
    from that obtain xk where a: "a = (xk, xi)" and "xk \<in> set (cells_of it (peers xi |-| {|xj|}))"
      by auto
    then have "xk |\<in>| peers xi"
      by (simp add: enumerates_cells(1)[OF assms(1)])
    then have "xk \<in> set cells" "xi |\<in>| peers xk"
      using peers_in_cells[of xk xi] peers_sym[OF assms(2), of xk] by blast+
    with a show ?thesis by simp
  qed
  then have "\<forall>a\<in>set (map (\<lambda>xk. (xk, xi)) (cells_of it (peers xi |-| {|xj|}))).
               fst a \<in> set cells \<and> snd a |\<in>| peers (fst a)"
    by blast
  with assms(3) show ?thesis
    unfolding arcs_ok_def set_append by blast
qed

lemma ac3_inv_continue:
  assumes "enumerates it" and "ac3_inv st" and "queue st \<noteq> []" and "ac3_outcome it st = Inl st1"
  shows "ac3_inv st1"
proof -
  from assms(3) obtain xi xj q where q: "queue st = (xi, xj) # q"
    by (cases "queue st") auto
  from assms(2) q have ok: "csp_ok (solver st)" and aq: "arcs_ok q" and xi: "xi \<in> set cells"
    by (auto simp: ac3_inv_def arcs_ok_def)
  from q show ?thesis
  proof (cases rule: ac3_outcome_cases[where it = it])
    case same
    with assms(4) have "solver st1 = solver st" "queue st1 = q" by auto
    with ok aq show ?thesis by (simp add: ac3_inv_def)
  next
    case emptied
    with assms(4) show ?thesis by simp
  next
    case shrunk
    let ?D = "pruned (dom_at (solver st) xi) (dom_at (solver st) xj)"
    from shrunk(3) assms(4) have s1: "solver st1 = set_dom (solver st) xi ?D"
      and q1: "queue st1 = q @ map (\<lambda>xk. (xk, xi)) (cells_of it (peers xi |-| {|xj|}))"
      by auto
    have "csp_ok (solver st1)" unfolding s1 by (rule csp_ok_set_dom[OF ok xi])
    moreover have "arcs_ok (queue st1)" unfolding q1 by (rule arcs_ok_append[OF assms(1) xi aq])
    ultimately show ?thesis by (simp add: ac3_inv_def)
  qed
qed

text \<open>On a well-formed state the loop returns, and a property kept by every iteration holds
  of its result.\<close>

lemma ac3_loop_rule:
  assumes "enumerates it" and "ac3_inv st" and "I st"
    and cont: "\<And>st st1. ac3_inv st \<Longrightarrow> I st \<Longrightarrow> queue st \<noteq> [] \<Longrightarrow>
                 ac3_outcome it st = Inl st1 \<Longrightarrow> I st1"
    and stop: "\<And>st. ac3_inv st \<Longrightarrow> I st \<Longrightarrow> queue st = [] \<Longrightarrow> Q True st"
    and failed: "\<And>st st1. ac3_inv st \<Longrightarrow> I st \<Longrightarrow> queue st \<noteq> [] \<Longrightarrow>
                 ac3_outcome it st = Inr st1 \<Longrightarrow> Q False st1"
  shows "\<exists>b st1. ac3_loop it st = Inr (b, st1) \<and> Q b st1"
  using assms(2,3)
proof (induction st rule: wf_induct_rule[OF wf_ac3_measure])
  case (1 st)
  note e = assms(1) and inv = "1.prems"(1) and i = "1.prems"(2)
  show ?case
  proof (cases "queue st = []")
    case True
    have "ac3_loop it st = Inr (True, st)"
      using True by (subst ac3_loop.simps) simp
    with stop[OF inv i True] show ?thesis by blast
  next
    case False
    from inv have ok: "csp_ok (solver st)" "arcs_ok (queue st)"
      by (simp_all add: ac3_inv_def)
    note eq = ac3_iteration_ok[OF e ok False]
    show ?thesis
    proof (cases "ac3_outcome it st")
      case (Inl st1)
      have it1: "ac3_iteration it st = Inr (Inl st1)" using eq Inl by simp
      have "\<exists>b st2. ac3_loop it st1 = Inr (b, st2) \<and> Q b st2"
      proof (rule "1.IH")
        show "(st1, st) \<in> ac3_measure" by (rule ac3_iteration_decreases[OF it1])
        show "ac3_inv st1" by (rule ac3_inv_continue[OF e inv False Inl])
        show "I st1" by (rule cont[OF inv i False Inl])
      qed
      moreover have "ac3_loop it st = ac3_loop it st1"
        using False it1 by (subst ac3_loop.simps) simp
      ultimately show ?thesis by simp
    next
      case (Inr st1)
      have "ac3_loop it st = Inr (False, st1)"
        using False eq Inr by (subst ac3_loop.simps) simp
      with failed[OF inv i False Inr] show ?thesis by blast
    qed
  qed
qed

subsection \<open>The solver built from a grid\<close>

definition is_grid :: "grid \<Rightarrow> bool" where
  "is_grid g \<longleftrightarrow> length g = 9 \<and> (\<forall>row\<in>set g. length row = 9)"

definition clue :: "grid \<Rightarrow> cell \<Rightarrow> int" where
  "clue g c = g ! fst c ! snd c"

definition initial_domain :: "grid \<Rightarrow> cell \<Rightarrow> int fset" where
  "initial_domain g c = (if clue g c = 0 then range_1_10 else {|clue g c|})"

lemma puzzle_item_ok:
  assumes "is_grid g" and "(i, j) \<in> set cells"
  shows "puzzle_item g i j = Inr (clue g (i, j))"
proof -
  from assms have i: "i < length g" and j: "j < 9" by (simp_all add: is_grid_def in_cells_iff)
  then have "length (g ! i) = 9" using assms(1) by (simp add: is_grid_def)
  with i j show ?thesis by (simp add: puzzle_item_def list_item_def clue_def)
qed

lemma initialize_domains_loop:
  assumes "is_grid g" and "set cs \<subseteq> set cells"
  shows "foldM (initialize_domains_step g) cs d =
           Inr (fold (\<lambda>c. AList.update c (initial_domain g c)) cs d)"
  using assms(2)
proof (induction cs arbitrary: d)
  case Nil
  then show ?case by simp
next
  case (Cons c cs)
  obtain i j where c: "c = (i, j)" by (cases c)
  with Cons.prems have "puzzle_item g i j = Inr (clue g (i, j))"
    by (intro puzzle_item_ok[OF assms(1)]) simp
  then have "initialize_domains_step g c d = Inr (AList.update c (initial_domain g c) d)"
    by (simp add: initialize_domains_step_def c initial_domain_def)
  with Cons show ?case by simp
qed

lemma keys_fold_update:
  "distinct cs \<Longrightarrow> set cs \<inter> set (map fst d) = {} \<Longrightarrow>
   map fst (fold (\<lambda>c. AList.update c (f c)) cs d) = map fst d @ cs"
proof (induction cs arbitrary: d)
  case Nil
  then show ?case by simp
next
  case (Cons c cs)
  have k: "map fst (AList.update c (f c) d) = map fst d @ [c]"
    using Cons.prems(2) by (simp add: update_keys)
  have "map fst (fold (\<lambda>c. AList.update c (f c)) cs (AList.update c (f c) d)) =
          map fst (AList.update c (f c) d) @ cs"
    using Cons.prems by (intro Cons.IH) (auto simp: k)
  with k show ?case by simp
qed

lemma map_of_fold_update:
  "distinct cs \<Longrightarrow>
   map_of (fold (\<lambda>c. AList.update c (f c)) cs d) k = (if k \<in> set cs then Some (f k) else map_of d k)"
  by (induction cs arbitrary: d) (auto simp: update_conv')

lemma SudokuCSP_ok:
  assumes "is_grid g"
  shows "\<exists>s. SudokuCSP g = Inr s \<and> csp_ok s \<and> puzzle s = g \<and>
             (\<forall>c\<in>set cells. dom_at s c = initial_domain g c)"
proof -
  let ?d = "fold (\<lambda>c. AList.update c (initial_domain g c)) cells []"
  have d: "initialize_domains g = Inr ?d"
    unfolding initialize_domains_def by (rule initialize_domains_loop[OF assms]) simp
  have k: "map fst ?d = cells"
    using keys_fold_update[OF distinct_cells, of "[]" "initial_domain g"] by simp
  have m: "\<forall>c\<in>set cells. map_of ?d c = Some (initial_domain g c)"
    by (simp add: map_of_fold_update[OF distinct_cells])
  let ?s = "\<lparr>puzzle = g, domains = ?d, neighbors = initialize_neighbors\<rparr>"
  have "SudokuCSP g = Inr ?s" by (simp add: SudokuCSP_def d)
  moreover have "csp_ok ?s" by (simp add: csp_ok_def k)
  moreover have "\<forall>c\<in>set cells. dom_at ?s c = initial_domain g c"
    using m by (simp add: dom_at_def)
  ultimately show ?thesis by (intro exI[of _ ?s]) simp
qed

lemma initial_domain_nonempty: "initial_domain g c \<noteq> {||}"
  by (simp add: initial_domain_def range_1_10_def)

subsection \<open>The initial worklist\<close>

definition all_arcs :: "iteration \<Rightarrow> arc list" where
  "all_arcs it = concat (map (\<lambda>xi. map (Pair xi) (cells_of it (peers xi))) cells)"

lemma initial_arcs_ok:
  assumes "csp_ok s" and "set cs \<subseteq> set cells"
  shows "initial_arcs it cs s = (concat (map (\<lambda>xi. map (Pair xi) (cells_of it (peers xi))) cs), s)"
  using assms(2)
proof (induction cs)
  case Nil
  then show ?case by simp
next
  case (Cons c cs)
  then have "neighbors_get s c = (peers c, s)"
    by (intro neighbors_get_ok[OF assms(1)]) simp
  with Cons show ?case by simp
qed

lemma ac3_start_ok:
  assumes "csp_ok s"
  shows "ac3_start it s = \<lparr>solver = s, queue = all_arcs it, queue_lengths = []\<rparr>"
proof -
  have "map fst (domains s) = cells" using assms by (simp add: csp_ok_def)
  then show ?thesis
    using initial_arcs_ok[OF assms, of cells it] by (simp add: ac3_start_def all_arcs_def)
qed

lemma set_all_arcs:
  assumes "enumerates it"
  shows "set (all_arcs it) = {(xi, xj). xi \<in> set cells \<and> xj |\<in>| peers xi}"
  by (auto simp: all_arcs_def enumerates_cells(1)[OF assms])



definition nonempty :: "csp \<Rightarrow> bool" where
  "nonempty s \<longleftrightarrow> (\<forall>c\<in>set cells. dom_at s c \<noteq> {||})"

lemma ac3_inv_start:
  assumes "enumerates it" and "csp_ok s"
  shows "ac3_inv (ac3_start it s)"
  using assms by (auto simp: ac3_start_ok ac3_inv_def arcs_ok_def set_all_arcs)

subsection \<open>What an iteration keeps\<close>

definition consistent :: "int fset \<Rightarrow> int fset \<Rightarrow> bool" where
  "consistent Di Dj \<longleftrightarrow> (\<forall>x. x |\<in>| Di \<longrightarrow> \<not> unsupported Dj x)"

lemma pruned_eq_iff: "pruned Di Dj = Di \<longleftrightarrow> consistent Di Dj"
proof
  assume "pruned Di Dj = Di"
  then have "\<And>x. x |\<in>| Di \<Longrightarrow> x |\<in>| pruned Di Dj" by simp
  then show "consistent Di Dj" by (simp add: consistent_def pruned_iff)
next
  assume "consistent Di Dj"
  then show "pruned Di Dj = Di"
    by (intro fset_eqI) (auto simp: pruned_iff consistent_def)
qed

lemma consistent_pruned: "consistent (pruned Di Dj) Dj"
  by (simp add: consistent_def pruned_iff)

lemma consistent_subset: "D |\<subseteq>| Di \<Longrightarrow> consistent Di Dj \<Longrightarrow> consistent D Dj"
  by (auto simp: consistent_def)

lemma consistent_back:
  assumes "consistent Dj Di"
  shows "consistent Dj (pruned Di Dj)"
  unfolding consistent_def
proof (intro allI impI)
  fix y assume y: "y |\<in>| Dj"
  with assms have "\<not> unsupported Di y" by (simp add: consistent_def)
  then obtain x where x: "x |\<in>| Di" "x \<noteq> y" by (auto simp: unsupported_iff)
  with y have "\<not> unsupported Dj x" by (auto simp: unsupported_iff)
  with x have "x |\<in>| pruned Di Dj" by (simp add: pruned_iff)
  with x(2) show "\<not> unsupported (pruned Di Dj) y" by (auto simp: unsupported_iff)
qed

text \<open>Every arc is waiting in the deque or already consistent.\<close>

definition settled :: "ac3_state \<Rightarrow> bool" where
  "settled st \<longleftrightarrow>
     (\<forall>xi\<in>set cells. \<forall>xj. xj |\<in>| peers xi \<longrightarrow>
        (xi, xj) \<in> set (queue st) \<or> consistent (dom_at (solver st) xi) (dom_at (solver st) xj))"

definition arc_consistent :: "csp \<Rightarrow> bool" where
  "arc_consistent s \<longleftrightarrow>
     (\<forall>xi\<in>set cells. \<forall>xj. xj |\<in>| peers xi \<longrightarrow> consistent (dom_at s xi) (dom_at s xj))"

lemma settled_continue:
  assumes "enumerates it" and "ac3_inv st" and "settled st" and "queue st \<noteq> []"
    and "ac3_outcome it st = Inl st1"
  shows "settled st1"
proof -
  from assms(4) obtain xi xj q where q: "queue st = (xi, xj) # q"
    by (cases "queue st") auto
  from assms(2) q have xi: "xi \<in> set cells" and xj: "xj |\<in>| peers xi"
    by (auto simp: ac3_inv_def arcs_ok_def)
  from xj have nij: "xj \<noteq> xi" by (rule peers_neq)
  let ?s = "solver st"
  let ?D = "pruned (dom_at ?s xi) (dom_at ?s xj)"
  from q show ?thesis
  proof (cases rule: ac3_outcome_cases[where it = it])
    case same
    with assms(5) have s1: "solver st1 = ?s" and q1: "queue st1 = q" by auto
    show ?thesis
      unfolding settled_def s1 q1
    proof (intro ballI allI impI)
      fix a b assume a: "a \<in> set cells" and b: "b |\<in>| peers a"
      show "(a, b) \<in> set q \<or> consistent (dom_at ?s a) (dom_at ?s b)"
      proof (cases "(a, b) = (xi, xj)")
        case True
        with same(1) show ?thesis by (simp add: pruned_eq_iff)
      next
        case False
        from assms(3) a b have "(a, b) \<in> set (queue st) \<or> consistent (dom_at ?s a) (dom_at ?s b)"
          unfolding settled_def by blast
        with False q show ?thesis by auto
      qed
    qed
  next
    case emptied
    with assms(5) show ?thesis by simp
  next
    case shrunk
    with assms(5) have s1: "solver st1 = set_dom ?s xi ?D"
      and q1: "queue st1 = q @ map (\<lambda>xk. (xk, xi)) (cells_of it (peers xi |-| {|xj|}))"
      by auto
    have added: "(a, xi) \<in> set (queue st1)" if "a |\<in>| peers xi" "a \<noteq> xj" for a
      using that by (simp add: q1 enumerates_cells(1)[OF assms(1)])
    have kept: "(a, b) \<in> set (queue st1)" if "(a, b) \<in> set (queue st)" "(a, b) \<noteq> (xi, xj)" for a b
      using that q by (auto simp: q1)
    show ?thesis
      unfolding settled_def
    proof (intro ballI allI impI)
      fix a b assume a: "a \<in> set cells" and b: "b |\<in>| peers a"
      from b have nab: "b \<noteq> a" by (rule peers_neq)
      from assms(3) a b have old: "(a, b) \<in> set (queue st) \<or> consistent (dom_at ?s a) (dom_at ?s b)"
        unfolding settled_def by blast
      let ?goal = "(a, b) \<in> set (queue st1) \<or> consistent (dom_at (solver st1) a) (dom_at (solver st1) b)"
      consider (popped) "a = xi" "b = xj" | (from_xi) "a = xi" "b \<noteq> xj"
        | (to_xi) "b = xi" | (other) "a \<noteq> xi" "b \<noteq> xi" by blast
      then show ?goal
      proof cases
        case popped
        with nij show ?thesis by (simp add: s1 dom_at_set_dom consistent_pruned)
      next
        case from_xi
        from old show ?thesis
        proof
          assume "(a, b) \<in> set (queue st)"
          with from_xi kept show ?thesis by blast
        next
          assume "consistent (dom_at ?s a) (dom_at ?s b)"
          with from_xi nab consistent_subset[OF pruned_subset] show ?thesis
            by (simp add: s1 dom_at_set_dom)
        qed
      next
        case to_xi
        with b have axi: "a |\<in>| peers xi" using peers_sym[OF a] by simp
        show ?thesis
        proof (cases "a = xj")
          case False
          with added[OF axi] to_xi show ?thesis by simp
        next
          case True
          from old show ?thesis
          proof
            assume "(a, b) \<in> set (queue st)"
            with kept[of a b] True to_xi nij show ?thesis by auto
          next
            assume "consistent (dom_at ?s a) (dom_at ?s b)"
            with True to_xi nij consistent_back show ?thesis
              by (simp add: s1 dom_at_set_dom)
          qed
        qed
      next
        case other
        from old show ?thesis
        proof
          assume "(a, b) \<in> set (queue st)"
          with other kept show ?thesis by blast
        next
          assume "consistent (dom_at ?s a) (dom_at ?s b)"
          with other show ?thesis by (simp add: s1 dom_at_set_dom)
        qed
      qed
    qed
  qed
qed

text \<open>Domains only shrink, in an iteration that continues and in the one that fails.\<close>

lemma dom_at_set_dom_subset:
  "D |\<subseteq>| dom_at s c \<Longrightarrow> dom_at (set_dom s c D) c' |\<subseteq>| dom_at s c'"
  by (cases "c' = c") (simp_all add: dom_at_set_dom)

lemma ac3_outcome_shrinks:
  assumes "queue st \<noteq> []" and "ac3_outcome it st = Inl st1 \<or> ac3_outcome it st = Inr st1"
  shows "dom_at (solver st1) c |\<subseteq>| dom_at (solver st) c"
proof -
  from assms(1) obtain xi xj q where q: "queue st = (xi, xj) # q"
    by (cases "queue st") auto
  from q show ?thesis
  proof (cases rule: ac3_outcome_cases[where it = it])
    case same
    with assms(2) show ?thesis by auto
  next
    case emptied
    with assms(2) have "solver st1 = set_dom (solver st) xi {||}" by auto
    then show ?thesis by (simp add: dom_at_set_dom_subset)
  next
    case shrunk
    with assms(2) have "solver st1 =
        set_dom (solver st) xi (pruned (dom_at (solver st) xi) (dom_at (solver st) xj))" by auto
    then show ?thesis by (simp add: dom_at_set_dom_subset pruned_subset)
  qed
qed

lemma ac3_outcome_puzzle:
  assumes "queue st \<noteq> []" and "ac3_outcome it st = Inl st1 \<or> ac3_outcome it st = Inr st1"
  shows "puzzle (solver st1) = puzzle (solver st)"
proof -
  from assms(1) obtain xi xj q where q: "queue st = (xi, xj) # q"
    by (cases "queue st") auto
  from q show ?thesis
    by (cases rule: ac3_outcome_cases[where it = it]) (use assms(2) in \<open>auto simp: puzzle_set_dom\<close>)
qed

lemma ac3_outcome_csp_ok:
  assumes "ac3_inv st" and "queue st \<noteq> []" 
    and "ac3_outcome it st = Inl st1 \<or> ac3_outcome it st = Inr st1"
  shows "csp_ok (solver st1)"
proof -
  from assms(2) obtain xi xj q where q: "queue st = (xi, xj) # q"
    by (cases "queue st") auto
  from assms(1) q have ok: "csp_ok (solver st)" and xi: "xi \<in> set cells"
    by (auto simp: ac3_inv_def arcs_ok_def)
  from q show ?thesis
    by (cases rule: ac3_outcome_cases[where it = it])
       (use assms(3) ok csp_ok_set_dom[OF ok xi] in auto)
qed

text \<open>A family of sets of values in which every value has a support in every neighbouring
  set is never pruned.\<close>

definition supported_family :: "(cell \<Rightarrow> int fset) \<Rightarrow> bool" where
  "supported_family E \<longleftrightarrow>
     (\<forall>c\<in>set cells. \<forall>n. n |\<in>| peers c \<longrightarrow> consistent (E c) (E n))"

definition within :: "(cell \<Rightarrow> int fset) \<Rightarrow> csp \<Rightarrow> bool" where
  "within E s \<longleftrightarrow> (\<forall>c\<in>set cells. E c |\<subseteq>| dom_at s c)"

lemma within_pruned:
  assumes "supported_family E" and "within E s" and "xi \<in> set cells" and "xj |\<in>| peers xi"
  shows "E xi |\<subseteq>| pruned (dom_at s xi) (dom_at s xj)"
proof
  fix x assume x: "x |\<in>| E xi"
  from assms(1,3,4) have "consistent (E xi) (E xj)"
    unfolding supported_family_def by blast
  with x have "\<not> unsupported (E xj) x"
    by (simp add: consistent_def)
  then obtain y where "y |\<in>| E xj" "y \<noteq> x" by (auto simp: unsupported_iff)
  moreover have "E xj |\<subseteq>| dom_at s xj"
    using assms(2) peers_in_cells[OF assms(4)] by (simp add: within_def)
  ultimately have "\<not> unsupported (dom_at s xj) x" by (auto simp: unsupported_iff)
  moreover have "x |\<in>| dom_at s xi" using assms(2,3) x by (auto simp: within_def)
  ultimately show "x |\<in>| pruned (dom_at s xi) (dom_at s xj)" by (simp add: pruned_iff)
qed

lemma within_set_dom: "within E s \<Longrightarrow> E c |\<subseteq>| D \<Longrightarrow> within E (set_dom s c D)"
  unfolding within_def
proof
  fix c' assume a: "\<forall>c\<in>set cells. E c |\<subseteq>| dom_at s c" "E c |\<subseteq>| D" "c' \<in> set cells"
  then show "E c' |\<subseteq>| dom_at (set_dom s c D) c'"
    by (cases "c' = c") (simp_all add: dom_at_set_dom)
qed

lemma within_outcome:
  assumes "supported_family E" and "ac3_inv st" and "within E (solver st)" and "queue st \<noteq> []"
    and "ac3_outcome it st = Inl st1 \<or> ac3_outcome it st = Inr st1"
  shows "within E (solver st1)"
proof -
  from assms(4) obtain xi xj q where q: "queue st = (xi, xj) # q"
    by (cases "queue st") auto
  from assms(2) q have xi: "xi \<in> set cells" and xj: "xj |\<in>| peers xi"
    by (auto simp: ac3_inv_def arcs_ok_def)
  note p = within_pruned[OF assms(1,3) xi xj]
  from q show ?thesis
  proof (cases rule: ac3_outcome_cases[where it = it])
    case same
    with assms(3,5) show ?thesis by auto
  next
    case emptied
    with assms(5) have "solver st1 = set_dom (solver st) xi {||}" by auto
    with within_set_dom[OF assms(3), of xi "{||}"] p emptied(1) show ?thesis by simp
  next
    case shrunk
    with assms(5) have "solver st1 =
        set_dom (solver st) xi (pruned (dom_at (solver st) xi) (dom_at (solver st) xj))" by auto
    with within_set_dom[OF assms(3) p] show ?thesis by simp
  qed
qed

lemma nonempty_continue:
  assumes "nonempty (solver st)" and "queue st \<noteq> []" and "ac3_outcome it st = Inl st1"
  shows "nonempty (solver st1)"
proof -
  from assms(2) obtain xi xj q where q: "queue st = (xi, xj) # q"
    by (cases "queue st") auto
  from q show ?thesis
    by (cases rule: ac3_outcome_cases[where it = it])
       (use assms(1,3) in \<open>auto simp: nonempty_def dom_at_set_dom\<close>)
qed

lemma empty_on_failure:
  assumes "ac3_inv st" and "queue st \<noteq> []" and "ac3_outcome it st = Inr st1"
  shows "\<exists>c\<in>set cells. dom_at (solver st1) c = {||}"
proof -
  from assms(2) obtain xi xj q where q: "queue st = (xi, xj) # q"
    by (cases "queue st") auto
  from assms(1) q have xi: "xi \<in> set cells"
    by (auto simp: ac3_inv_def arcs_ok_def)
  from q show ?thesis
    by (cases rule: ac3_outcome_cases[where it = it])
       (use assms(3) xi in \<open>auto simp: dom_at_set_dom\<close>)
qed

subsection \<open>The result of \<open>ac3\<close>\<close>

lemma ac3_head_rule:
  assumes "enumerates it"
    and cont: "\<And>st st1. ac3_inv st \<Longrightarrow> I st \<Longrightarrow> queue st \<noteq> [] \<Longrightarrow>
                 ac3_outcome it st = Inl st1 \<Longrightarrow> I st1"
  shows "ac3_inv st0 \<Longrightarrow> I st0 \<Longrightarrow> ac3_head it n st0 = Some st \<Longrightarrow> ac3_inv st \<and> I st"
proof (induction n arbitrary: st0)
  case 0
  then show ?case by simp
next
  case (Suc n)
  from Suc.prems(3) have ne: "queue st0 \<noteq> []" by (auto split: if_splits)
  from Suc.prems(1) have ok: "csp_ok (solver st0)" "arcs_ok (queue st0)"
    by (simp_all add: ac3_inv_def)
  note eq = ac3_iteration_ok[OF assms(1) ok ne]
  from Suc.prems(3) ne eq obtain st1 where o: "ac3_outcome it st0 = Inl st1"
    and h: "ac3_head it n st1 = Some st"
    by (cases "ac3_outcome it st0") auto
  show ?case
    by (rule Suc.IH[OF ac3_inv_continue[OF assms(1) Suc.prems(1) ne o]
          cont[OF Suc.prems(1,2) ne o] h])
qed

lemma settled_start:
  assumes "enumerates it" and "csp_ok s"
  shows "settled (ac3_start it s)"
  unfolding settled_def by (simp add: ac3_start_ok[OF assms(2)] set_all_arcs[OF assms(1)])

lemma settled_empty: "settled st \<Longrightarrow> queue st = [] \<Longrightarrow> arc_consistent (solver st)"
  unfolding settled_def arc_consistent_def by simp

definition ac3_kept :: "csp \<Rightarrow> csp \<Rightarrow> bool" where
  "ac3_kept s s1 \<longleftrightarrow>
     csp_ok s1 \<and> puzzle s1 = puzzle s \<and> (\<forall>c. dom_at s1 c |\<subseteq>| dom_at s c) \<and>
     (\<forall>E. supported_family E \<longrightarrow> within E s \<longrightarrow> within E s1)"

lemma ac3_kept_refl: "csp_ok s \<Longrightarrow> ac3_kept s s"
  by (simp add: ac3_kept_def)

lemma ac3_kept_outcome:
  assumes "ac3_inv st" and "ac3_kept s (solver st)" and "queue st \<noteq> []"
    and "ac3_outcome it st = Inl st1 \<or> ac3_outcome it st = Inr st1"
  shows "ac3_kept s (solver st1)"
proof -
  have "dom_at (solver st1) c |\<subseteq>| dom_at s c" for c
    using ac3_outcome_shrinks[OF assms(3,4), of c] assms(2)
    unfolding ac3_kept_def by blast
  moreover have "within E (solver st1)" if "supported_family E" "within E s" for E
  proof -
    from assms(2) that have "within E (solver st)" unfolding ac3_kept_def by blast
    from within_outcome[OF that(1) assms(1) this assms(3,4)] show ?thesis .
  qed
  moreover have "puzzle (solver st1) = puzzle s"
    using ac3_outcome_puzzle[OF assms(3,4)] assms(2) by (simp add: ac3_kept_def)
  ultimately show ?thesis
    using ac3_outcome_csp_ok[OF assms(1,3,4)] by (simp add: ac3_kept_def)
qed

lemma ac3_loop_ok:
  assumes "enumerates it" and "csp_ok s"
  shows "\<exists>b st1. ac3_loop it (ac3_start it s) = Inr (b, st1) \<and>
           ac3_kept s (solver st1) \<and> (b \<longrightarrow> arc_consistent (solver st1)) \<and>
           (nonempty s \<longrightarrow> (b \<longleftrightarrow> nonempty (solver st1)))"
proof (rule ac3_loop_rule[where
    I = "\<lambda>st. ac3_kept s (solver st) \<and> settled st \<and> (nonempty s \<longrightarrow> nonempty (solver st))"
    and Q = "\<lambda>b st1. ac3_kept s (solver st1) \<and> (b \<longrightarrow> arc_consistent (solver st1)) \<and>
           (nonempty s \<longrightarrow> (b \<longleftrightarrow> nonempty (solver st1)))"])
  show "enumerates it" by (rule assms(1))
  show "ac3_inv (ac3_start it s)" by (rule ac3_inv_start[OF assms])
  show "ac3_kept s (solver (ac3_start it s)) \<and> settled (ac3_start it s) \<and>
        (nonempty s \<longrightarrow> nonempty (solver (ac3_start it s)))"
    using settled_start[OF assms] by (simp add: ac3_start_ok[OF assms(2)] ac3_kept_refl[OF assms(2)])
next
  fix st st1
  assume inv: "ac3_inv st"
    and i: "ac3_kept s (solver st) \<and> settled st \<and> (nonempty s \<longrightarrow> nonempty (solver st))"
    and ne: "queue st \<noteq> []" and o: "ac3_outcome it st = Inl st1"
  from i have k: "ac3_kept s (solver st)" and se: "settled st" by simp_all
  have "ac3_kept s (solver st1)" by (rule ac3_kept_outcome[OF inv k ne, of it]) (simp add: o)
  moreover have "settled st1" by (rule settled_continue[OF assms(1) inv se ne o])
  moreover have "nonempty s \<longrightarrow> nonempty (solver st1)"
    using i nonempty_continue[OF _ ne o] by blast
  ultimately show "ac3_kept s (solver st1) \<and> settled st1 \<and> (nonempty s \<longrightarrow> nonempty (solver st1))"
    by simp
next
  fix st
  assume "ac3_inv st"
    and i: "ac3_kept s (solver st) \<and> settled st \<and> (nonempty s \<longrightarrow> nonempty (solver st))"
    and e: "queue st = []"
  with settled_empty[of st] show "ac3_kept s (solver st) \<and> (True \<longrightarrow> arc_consistent (solver st)) \<and>
           (nonempty s \<longrightarrow> (True \<longleftrightarrow> nonempty (solver st)))" by simp
next
  fix st st1
  assume inv: "ac3_inv st"
    and i: "ac3_kept s (solver st) \<and> settled st \<and> (nonempty s \<longrightarrow> nonempty (solver st))"
    and ne: "queue st \<noteq> []" and o: "ac3_outcome it st = Inr st1"
  from i have k: "ac3_kept s (solver st)" by simp
  have "ac3_kept s (solver st1)" by (rule ac3_kept_outcome[OF inv k ne, of it]) (simp add: o)
  moreover have "\<not> nonempty (solver st1)"
    using empty_on_failure[OF inv ne o] by (simp add: nonempty_def)
  ultimately show "ac3_kept s (solver st1) \<and> (False \<longrightarrow> arc_consistent (solver st1)) \<and>
           (nonempty s \<longrightarrow> (False \<longleftrightarrow> nonempty (solver st1)))" by simp
qed

lemma ac3_ok:
  assumes "enumerates it" and "csp_ok s"
  shows "\<exists>b ql s1. ac3 it s = Inr ((b, ql), s1, if b then [] else [''Puzzle has no solution'']) \<and>
           ac3_kept s s1 \<and> (b \<longrightarrow> arc_consistent s1) \<and> (nonempty s \<longrightarrow> (b \<longleftrightarrow> nonempty s1))"
proof -
  from ac3_loop_ok[OF assms] obtain b st1 where
    l: "ac3_loop it (ac3_start it s) = Inr (b, st1)"
    and r: "ac3_kept s (solver st1)" "b \<longrightarrow> arc_consistent (solver st1)"
      "nonempty s \<longrightarrow> (b \<longleftrightarrow> nonempty (solver st1))"
    by blast
  have "ac3 it s = Inr ((b, queue_lengths st1), solver st1,
                        if b then [] else [''Puzzle has no solution''])"
    by (simp add: ac3_def l)
  with r show ?thesis by blast
qed

subsection \<open>Steps of a run\<close>

lemma ac3_head_add:
  "ac3_head it (m + k) st0 = (case ac3_head it m st0 of None \<Rightarrow> None | Some st \<Rightarrow> ac3_head it k st)"
  by (induction m arbitrary: st0) (auto split: sum.splits)

lemma ac3_loop_from_head:
  "ac3_head it m st0 = Some st \<Longrightarrow> ac3_loop it st0 = ac3_loop it st"
proof (induction m arbitrary: st0)
  case 0
  then show ?case by simp
next
  case (Suc m)
  from Suc.prems have ne: "queue st0 \<noteq> []" by (auto split: if_splits)
  with Suc.prems obtain st1 where i: "ac3_iteration it st0 = Inr (Inl st1)"
    and h: "ac3_head it m st1 = Some st"
    by (auto split: sum.splits)
  have "ac3_loop it st0 = ac3_loop it st1"
    using ne i by (subst ac3_loop.simps) simp
  with Suc.IH[OF h] show ?case by simp
qed

lemma ac3_loop_shrinks:
  assumes "enumerates it" and "ac3_inv st" and "ac3_loop it st = Inr (b, st1)"
  shows "dom_at (solver st1) c |\<subseteq>| dom_at (solver st) c"
proof -
  have "\<exists>b st1. ac3_loop it st = Inr (b, st1) \<and> dom_at (solver st1) c |\<subseteq>| dom_at (solver st) c"
  proof (rule ac3_loop_rule[where I = "\<lambda>st'. dom_at (solver st') c |\<subseteq>| dom_at (solver st) c"
        and Q = "\<lambda>b st'. dom_at (solver st') c |\<subseteq>| dom_at (solver st) c", OF assms(1,2)])
    show "dom_at (solver st) c |\<subseteq>| dom_at (solver st) c" by simp
  next
    fix sa sb assume "dom_at (solver sa) c |\<subseteq>| dom_at (solver st) c" "queue sa \<noteq> []"
      "ac3_outcome it sa = Inl sb"
    with ac3_outcome_shrinks[of sa it sb c]
    show "dom_at (solver sb) c |\<subseteq>| dom_at (solver st) c" by auto
  next
    fix sa assume "dom_at (solver sa) c |\<subseteq>| dom_at (solver st) c"
    then show "dom_at (solver sa) c |\<subseteq>| dom_at (solver st) c" .
  next
    fix sa sb assume "dom_at (solver sa) c |\<subseteq>| dom_at (solver st) c" "queue sa \<noteq> []"
      "ac3_outcome it sa = Inr sb"
    with ac3_outcome_shrinks[of sa it sb c]
    show "dom_at (solver sb) c |\<subseteq>| dom_at (solver st) c" by auto
  qed
  with assms(3) show ?thesis by simp
qed

lemma ac3_head_shrinks:
  assumes "enumerates it" and "ac3_inv st" and "ac3_head it k st = Some st1"
  shows "dom_at (solver st1) c |\<subseteq>| dom_at (solver st) c"
proof -
  have "ac3_inv st1 \<and> dom_at (solver st1) c |\<subseteq>| dom_at (solver st) c"
  proof (rule ac3_head_rule[where I = "\<lambda>st'. dom_at (solver st') c |\<subseteq>| dom_at (solver st) c",
        OF assms(1) _ assms(2) _ assms(3)])
    show "dom_at (solver st) c |\<subseteq>| dom_at (solver st) c" by simp
  next
    fix sa sb assume "dom_at (solver sa) c |\<subseteq>| dom_at (solver st) c" "queue sa \<noteq> []"
      "ac3_outcome it sa = Inl sb"
    with ac3_outcome_shrinks[of sa it sb c]
    show "dom_at (solver sb) c |\<subseteq>| dom_at (solver st) c" by auto
  qed
  then show ?thesis by simp
qed

lemma ac3_head_inv:
  assumes "enumerates it" and "ac3_inv st" and "ac3_head it k st = Some st1"
  shows "ac3_inv st1"
  using ac3_head_rule[where I = "\<lambda>_. True", OF assms(1) _ assms(2) _ assms(3)] by simp

subsection \<open>A consistent store is a fixed point\<close>

lemma ac3_loop_fixed:
  assumes "enumerates it" and "csp_ok s" and "arc_consistent s"
  shows "arcs_ok q \<Longrightarrow>
         \<exists>ql1. ac3_loop it \<lparr>solver = s, queue = q, queue_lengths = ql\<rparr> =
                  Inr (True, \<lparr>solver = s, queue = [], queue_lengths = ql1\<rparr>)"
proof (induction q arbitrary: ql)
  case Nil
  show ?case by (subst ac3_loop.simps) simp
next
  case (Cons a q)
  obtain xi xj where a: "a = (xi, xj)" by (cases a)
  let ?st = "\<lparr>solver = s, queue = a # q, queue_lengths = ql\<rparr>"
  from Cons.prems a have xi: "xi \<in> set cells" and xj: "xj |\<in>| peers xi" and q: "arcs_ok q"
    by (auto simp: arcs_ok_def)
  from assms(3) xi xj have "consistent (dom_at s xi) (dom_at s xj)"
    unfolding arc_consistent_def by blast
  then have same: "pruned (dom_at s xi) (dom_at s xj) = dom_at s xi"
    by (simp add: pruned_eq_iff)
  have "ac3_iteration it ?st = Inr (ac3_outcome it ?st)"
    by (rule ac3_iteration_ok[OF assms(1)]) (use assms(2) Cons.prems in simp_all)
  also have "ac3_outcome it ?st =
      Inl \<lparr>solver = s, queue = q, queue_lengths = ql @ [Suc (length q)]\<rparr>"
    using same by (simp add: ac3_outcome_def a)
  finally have "ac3_loop it ?st =
      ac3_loop it \<lparr>solver = s, queue = q, queue_lengths = ql @ [Suc (length q)]\<rparr>"
    by (subst ac3_loop.simps) simp
  with Cons.IH[OF q, of "ql @ [Suc (length q)]"] show ?case by simp
qed

lemma ac3_fixed:
  assumes "enumerates it" and "csp_ok s" and "arc_consistent s"
  shows "\<exists>ql. ac3 it s = Inr ((True, ql), s, [])"
proof -
  have "arcs_ok (all_arcs it)"
    by (auto simp: arcs_ok_def set_all_arcs[OF assms(1)])
  from ac3_loop_fixed[OF assms this, of "[]"] show ?thesis
    by (auto simp: ac3_def ac3_start_ok[OF assms(2)])
qed

lemma ac3_head_fixed:
  assumes "enumerates it" and "csp_ok s" and "arc_consistent s"
  shows "arcs_ok q \<Longrightarrow> n \<le> length q \<Longrightarrow>
         \<exists>ql1. ac3_head it n \<lparr>solver = s, queue = q, queue_lengths = ql\<rparr> =
                  Some \<lparr>solver = s, queue = drop n q, queue_lengths = ql1\<rparr>"
proof (induction n arbitrary: q ql)
  case 0
  then show ?case by simp
next
  case (Suc n)
  then obtain a q' where qq: "q = a # q'" by (cases q) auto
  obtain xi xj where a: "a = (xi, xj)" by (cases a)
  let ?st = "\<lparr>solver = s, queue = q, queue_lengths = ql\<rparr>"
  from Suc.prems qq a have xi: "xi \<in> set cells" and xj: "xj |\<in>| peers xi" and q: "arcs_ok q'"
    by (auto simp: arcs_ok_def)
  from assms(3) xi xj have "consistent (dom_at s xi) (dom_at s xj)"
    unfolding arc_consistent_def by blast
  then have same: "pruned (dom_at s xi) (dom_at s xj) = dom_at s xi"
    by (simp add: pruned_eq_iff)
  have "ac3_iteration it ?st = Inr (ac3_outcome it ?st)"
    by (rule ac3_iteration_ok[OF assms(1)]) (use assms(2) Suc.prems qq in simp_all)
  also have "ac3_outcome it ?st =
      Inl \<lparr>solver = s, queue = q', queue_lengths = ql @ [Suc (length q')]\<rparr>"
    using same by (simp add: ac3_outcome_def a qq)
  finally have "ac3_head it (Suc n) ?st =
      ac3_head it n \<lparr>solver = s, queue = q', queue_lengths = ql @ [Suc (length q')]\<rparr>"
    using qq by simp
  with Suc.IH[OF q, of "ql @ [Suc (length q')]"] Suc.prems(2) qq show ?case by simp
qed

section \<open>Concrete inputs\<close>

lemma distinct_sorted_list_of_fset: "distinct (sorted_list_of_fset S)"
  by (simp add: sorted_list_of_fset.rep_eq)

lemma enumerates_ascending: "enumerates ascending"
  by (simp add: enumerates_def ascending_def distinct_sorted_list_of_fset)

definition grid_empty :: grid where
  "grid_empty = replicate 9 (replicate 9 0)"

text \<open>Two 5s at the start of row 0, nothing else.\<close>

definition grid_duplicate :: grid where
  "grid_duplicate = (5 # 5 # replicate 7 0) # replicate 8 (replicate 9 0)"

lemma is_grid_empty: "is_grid grid_empty"
  by (simp add: is_grid_def grid_empty_def)

lemma is_grid_duplicate: "is_grid grid_duplicate"
  by (auto simp: is_grid_def grid_duplicate_def)

lemma clue_grid_empty: "c \<in> set cells \<Longrightarrow> clue grid_empty c = 0"
  by (cases c) (simp add: clue_def grid_empty_def in_cells_iff)

lemma consistent_range: "consistent range_1_10 range_1_10"
proof -
  have "\<not> unsupported range_1_10 x" for x
  proof (cases "x = 1")
    case True
    have "(2::int) |\<in>| range_1_10" by (simp add: range_1_10_def)
    with True show ?thesis by (auto simp: unsupported_iff)
  next
    case False
    have "(1::int) |\<in>| range_1_10" by (simp add: range_1_10_def)
    with False show ?thesis by (auto simp: unsupported_iff)
  qed
  then show ?thesis by (simp add: consistent_def)
qed

lemma SudokuCSP_empty:
  "\<exists>s. SudokuCSP grid_empty = Inr s \<and> csp_ok s \<and> arc_consistent s"
proof -
  from SudokuCSP_ok[OF is_grid_empty] obtain s where
    s: "SudokuCSP grid_empty = Inr s" "csp_ok s"
    and d: "\<forall>c\<in>set cells. dom_at s c = initial_domain grid_empty c" by blast
  have "dom_at s c = range_1_10" if "c \<in> set cells" for c
    using d that by (simp add: initial_domain_def clue_grid_empty)
  then have "arc_consistent s"
    unfolding arc_consistent_def using consistent_range peers_in_cells by simp
  with s show ?thesis by blast
qed

section \<open>Claims about arc consistency\<close>

lemma ac3_loop_emptied:
  assumes "queue st = (xi, xj) # q" and "revise it (solver st) xi xj = Inr (True, s1)"
    and "getitem (domains s1) xi = Inr {||}"
  shows "ac3_loop it st =
           Inr (False, \<lparr>solver = s1, queue = q,
                        queue_lengths = queue_lengths st @ [length (queue st)]\<rparr>)"
proof -
  from assms have "ac3_iteration it st =
      Inr (Inr \<lparr>solver = s1, queue = q, queue_lengths = queue_lengths st @ [length (queue st)]\<rparr>)"
    by (simp add: ac3_iteration_def Let_def)
  with assms(1) show ?thesis by (subst ac3_loop.simps) simp
qed

lemma solve_sudoku_ac3_failed:
  assumes "SudokuCSP g = Inr s" and "ac3 it s = Inr ((False, ql), s1, out)"
  shows "solve_sudoku it g = Some (Inr ((None, ql), [''Puzzle has no solution'']))"
proof -
  from assms(2) have "out = [''Puzzle has no solution'']"
    by (auto simp: ac3_def split: sum.splits)
  with assms show ?thesis by (simp add: solve_sudoku_def)
qed

lemma duplicate_in_row_fails:
  assumes "enumerates it" and "is_grid g" and "i < 9" and "j < 9" and "k < 9" and "j \<noteq> k"
    and "g ! i ! j \<noteq> 0" and "g ! i ! j = g ! i ! k"
  shows "\<exists>s ql s1. SudokuCSP g = Inr s \<and>
           ac3 it s = Inr ((False, ql), s1, [''Puzzle has no solution''])"
proof -
  let ?v = "g ! i ! j"
  from SudokuCSP_ok[OF assms(2)] obtain s where
    s: "SudokuCSP g = Inr s" "csp_ok s"
    and d: "\<forall>c\<in>set cells. dom_at s c = initial_domain g c" by blast
  have ne: "nonempty s" using d by (simp add: nonempty_def initial_domain_nonempty)
  from ac3_ok[OF assms(1) s(2)] obtain b ql s1 where
    r: "ac3 it s = Inr ((b, ql), s1, if b then [] else [''Puzzle has no solution''])"
    and kept: "ac3_kept s s1" and ac: "b \<longrightarrow> arc_consistent s1"
    and n1: "nonempty s \<longrightarrow> (b \<longleftrightarrow> nonempty s1)" by blast
  have cj: "(i, j) \<in> set cells" and ck: "(i, k) \<in> set cells"
    using assms(3-5) by (simp_all add: in_cells_iff)
  have pk: "(i, k) |\<in>| peers (i, j)"
    using ck assms(6) by (auto simp: peers_iff related_def)
  have dj: "dom_at s (i, j) = {|?v|}" and dk: "dom_at s (i, k) = {|?v|}"
    using d cj ck assms(7,8) by (simp_all add: initial_domain_def clue_def)
  have "\<not> b"
  proof
    assume b: b
    with n1 ne have n: "nonempty s1" by simp
    from kept have sub: "\<And>c. dom_at s1 c |\<subseteq>| dom_at s c"
      unfolding ac3_kept_def by blast
    from n cj sub[of "(i, j)"] dj have ej: "dom_at s1 (i, j) = {|?v|}"
      by (auto simp: nonempty_def)
    from n ck sub[of "(i, k)"] dk have ek: "dom_at s1 (i, k) = {|?v|}"
      by (auto simp: nonempty_def)
    from ac b cj pk have "consistent (dom_at s1 (i, j)) (dom_at s1 (i, k))"
      unfolding arc_consistent_def by blast
    then show False by (simp add: ej ek consistent_def unsupported_iff)
  qed
  with r s(1) show ?thesis by auto
qed

text \<open>
  Claim C3. When a call of \<open>revise\<close> in the loop of \<open>ac3\<close> leaves the domain of \<open>xi\<close> empty, the
  loop returns \<open>False\<close> at once: the rest of the deque is left as it is and one length has been
  recorded. When \<open>ac3\<close> returns \<open>False\<close>, \<open>solve_sudoku\<close> returns \<open>None\<close> with the recorded
  lengths, and the only line printed is the one of \<open>ac3\<close>: the line that announces the
  backtracking search is not printed, and the search is never started. For a 9x9 grid with the
  same non-zero clue twice in a row, \<open>ac3\<close> returns \<open>False\<close>.
\<close>

theorem ac3_failure_short_circuits:
  "(\<forall>it (st :: ac3_state) xi xj q s1.
      queue st = (xi, xj) # q \<and> revise it (solver st) xi xj = Inr (True, s1) \<and>
      getitem (domains s1) xi = Inr {||} \<longrightarrow>
      ac3_loop it st =
        Inr (False, \<lparr>solver = s1, queue = q,
                     queue_lengths = queue_lengths st @ [length (queue st)]\<rparr>))
   \<and> (\<forall>it g s ql s1 out.
        SudokuCSP g = Inr s \<and> ac3 it s = Inr ((False, ql), s1, out) \<longrightarrow>
        solve_sudoku it g = Some (Inr ((None, ql), [''Puzzle has no solution''])))
   \<and> (\<forall>it g i j k.
        enumerates it \<and> is_grid g \<and> i < 9 \<and> j < 9 \<and> k < 9 \<and> j \<noteq> k \<and>
        g ! i ! j \<noteq> 0 \<and> g ! i ! j = g ! i ! k \<longrightarrow>
        (\<exists>s ql s1. SudokuCSP g = Inr s \<and>
           ac3 it s = Inr ((False, ql), s1, [''Puzzle has no solution'']) \<and>
           solve_sudoku it g = Some (Inr ((None, ql), [''Puzzle has no solution'']))))"
proof (intro conjI allI impI)
  fix it and st :: ac3_state and xi xj q s1
  assume "queue st = (xi, xj) # q \<and> revise it (solver st) xi xj = Inr (True, s1) \<and>
      getitem (domains s1) xi = Inr {||}"
  then show "ac3_loop it st =
        Inr (False, \<lparr>solver = s1, queue = q,
                     queue_lengths = queue_lengths st @ [length (queue st)]\<rparr>)"
    using ac3_loop_emptied by blast
next
  fix it g s ql s1 out
  assume "SudokuCSP g = Inr s \<and> ac3 it s = Inr ((False, ql), s1, out)"
  then show "solve_sudoku it g = Some (Inr ((None, ql), [''Puzzle has no solution'']))"
    using solve_sudoku_ac3_failed by blast
next
  fix it g i j k
  assume a: "enumerates it \<and> is_grid g \<and> i < 9 \<and> j < 9 \<and> k < 9 \<and> j \<noteq> k \<and>
        g ! i ! j \<noteq> 0 \<and> g ! i ! j = g ! i ! k"
  then obtain s ql s1 where r: "SudokuCSP g = Inr s"
      "ac3 it s = Inr ((False, ql), s1, [''Puzzle has no solution''])"
    using duplicate_in_row_fails[of it g i j k] by blast
  with solve_sudoku_ac3_failed[OF r] show "\<exists>s ql s1. SudokuCSP g = Inr s \<and>
           ac3 it s = Inr ((False, ql), s1, [''Puzzle has no solution'']) \<and>
           solve_sudoku it g = Some (Inr ((None, ql), [''Puzzle has no solution'']))"
    by blast
qed

theorem ac3_failure_short_circuits_witness:
  "enumerates ascending \<and> is_grid grid_duplicate \<and>
   grid_duplicate ! 0 ! 0 = 5 \<and> grid_duplicate ! 0 ! 1 = 5 \<and>
   (\<exists>s ql s1. SudokuCSP grid_duplicate = Inr s \<and>
      ac3 ascending s = Inr ((False, ql), s1, [''Puzzle has no solution'']) \<and>
      solve_sudoku ascending grid_duplicate =
        Some (Inr ((None, ql), [''Puzzle has no solution''])))"
proof -
  have g: "grid_duplicate ! 0 ! 0 = 5" "grid_duplicate ! 0 ! 1 = 5"
    by (simp_all add: grid_duplicate_def)
  have h: "enumerates ascending \<and> is_grid grid_duplicate \<and> (0::nat) < 9 \<and> (0::nat) < 9 \<and> (1::nat) < 9
        \<and> (0::nat) \<noteq> 1 \<and> grid_duplicate ! 0 ! 0 \<noteq> 0 \<and> grid_duplicate ! 0 ! 0 = grid_duplicate ! 0 ! 1"
    using g by (simp add: enumerates_ascending is_grid_duplicate)
  from ac3_failure_short_circuits have
    "\<forall>it g i j k.
        enumerates it \<and> is_grid g \<and> i < 9 \<and> j < 9 \<and> k < 9 \<and> j \<noteq> k \<and>
        g ! i ! j \<noteq> 0 \<and> g ! i ! j = g ! i ! k \<longrightarrow>
        (\<exists>s ql s1. SudokuCSP g = Inr s \<and>
           ac3 it s = Inr ((False, ql), s1, [''Puzzle has no solution'']) \<and>
           solve_sudoku it g = Some (Inr ((None, ql), [''Puzzle has no solution''])))"
    by (rule conjunct2[THEN conjunct2])
  from this[rule_format, of ascending grid_duplicate 0 0 1, OF h] g enumerates_ascending
    is_grid_duplicate
  show ?thesis by simp
qed

subsection \<open>Runs that succeed\<close>

lemma ac3_succeeds:
  assumes "enumerates it" and "csp_ok s" and "nonempty s"
    and "supported_family E" and "within E s" and "\<forall>c\<in>set cells. E c \<noteq> {||}"
  shows "\<exists>ql s1. ac3 it s = Inr ((True, ql), s1, []) \<and> ac3_kept s s1 \<and>
           arc_consistent s1 \<and> nonempty s1 \<and> within E s1"
proof -
  from ac3_ok[OF assms(1,2)] obtain b ql s1 where
    r: "ac3 it s = Inr ((b, ql), s1, if b then [] else [''Puzzle has no solution''])"
    and kept: "ac3_kept s s1" and ac: "b \<longrightarrow> arc_consistent s1"
    and n1: "nonempty s \<longrightarrow> (b \<longleftrightarrow> nonempty s1)" by blast
  from kept assms(4,5) have w: "within E s1" unfolding ac3_kept_def by blast
  have "nonempty s1"
    unfolding nonempty_def
  proof
    fix c assume c: "c \<in> set cells"
    with w have "E c |\<subseteq>| dom_at s1 c" by (simp add: within_def)
    with assms(6) c show "dom_at s1 c \<noteq> {||}" by auto
  qed
  with n1 assms(3) have b by simp
  with r kept ac w \<open>nonempty s1\<close> show ?thesis by auto
qed

lemma ac3_loop_reaches_head:
  assumes "enumerates it" and "ac3_inv st" and "ac3_loop it st = Inr (True, st1)"
  shows "\<exists>n. ac3_head it n st = Some st1"
proof -
  have "\<exists>b st2. ac3_loop it st = Inr (b, st2) \<and> (b \<longrightarrow> (\<exists>n. ac3_head it n st = Some st2))"
  proof (rule ac3_loop_rule[where I = "\<lambda>sa. \<exists>n. ac3_head it n st = Some sa"
        and Q = "\<lambda>b sa. b \<longrightarrow> (\<exists>n. ac3_head it n st = Some sa)", OF assms(1,2)])
    have "ac3_head it 0 st = Some st" by simp
    then show "\<exists>n. ac3_head it n st = Some st" by blast
  next
    fix sa sb
    assume inv: "ac3_inv sa" and h: "\<exists>n. ac3_head it n st = Some sa"
      and ne: "queue sa \<noteq> []" and o: "ac3_outcome it sa = Inl sb"
    from h obtain n where n: "ac3_head it n st = Some sa" by blast
    from inv have ok: "csp_ok (solver sa)" "arcs_ok (queue sa)" by (simp_all add: ac3_inv_def)
    from ac3_iteration_ok[OF assms(1) ok ne] o have "ac3_iteration it sa = Inr (Inl sb)" by simp
    with ne have "ac3_head it (Suc 0) sa = Some sb" by simp
    with n have "ac3_head it (n + Suc 0) st = Some sb" by (simp only: ac3_head_add option.case)
    then show "\<exists>n. ac3_head it n st = Some sb" by blast
  next
    fix sa assume "\<exists>n. ac3_head it n st = Some sa"
    then show "True \<longrightarrow> (\<exists>n. ac3_head it n st = Some sa)" by simp
  next
    fix sa sb :: ac3_state
    show "False \<longrightarrow> (\<exists>n. ac3_head it n st = Some sb)" by simp
  qed
  with assms(3) show ?thesis by auto
qed

subsection \<open>A grid with one clue\<close>

text \<open>A 5 in the top left corner, nothing else.\<close>

definition grid_one_clue :: grid where
  "grid_one_clue = (5 # replicate 8 0) # replicate 8 (replicate 9 0)"

lemma is_grid_one_clue: "is_grid grid_one_clue"
  by (auto simp: is_grid_def grid_one_clue_def)

lemma clue_one_clue:
  assumes "c \<in> set cells"
  shows "clue grid_one_clue c = (if c = (0, 0) then 5 else 0)"
proof -
  obtain i j where c: "c = (i, j)" by (cases c)
  with assms have ij: "i < 9" "j < 9" by (simp_all add: in_cells_iff)
  show ?thesis
  proof (cases i)
    case 0
    show ?thesis
    proof (cases j)
      case 0
      with \<open>i = 0\<close> c show ?thesis by (simp add: clue_def grid_one_clue_def)
    next
      case (Suc j')
      with \<open>i = 0\<close> c ij show ?thesis by (simp add: clue_def grid_one_clue_def)
    qed
  next
    case (Suc i')
    with c ij show ?thesis by (simp add: clue_def grid_one_clue_def)
  qed
qed

definition family_one_clue :: "cell \<Rightarrow> int fset" where
  "family_one_clue c =
     (if c = (0, 0) then {|5|}
      else if c |\<in>| peers (0, 0) then range_1_10 |-| {|5|} else range_1_10)"

lemma family_one_clue_has:
  assumes "c \<noteq> (0, 0)"
  shows "1 |\<in>| family_one_clue c" and "2 |\<in>| family_one_clue c"
  using assms by (simp_all add: family_one_clue_def range_1_10_def)

lemma supported_family_one_clue: "supported_family family_one_clue"
  unfolding supported_family_def consistent_def
proof (intro ballI allI impI)
  fix c n x
  assume c: "c \<in> set cells" and n: "n |\<in>| peers c" and x: "x |\<in>| family_one_clue c"
  show "\<not> unsupported (family_one_clue n) x"
  proof (cases "n = (0, 0)")
    case True
    from peers_sym[OF c n] True have "c |\<in>| peers (0, 0)" by simp
    moreover from n True have "c \<noteq> (0, 0)" using peers_neq by blast
    ultimately have "x \<noteq> 5" using x by (simp add: family_one_clue_def)
    moreover have "5 |\<in>| family_one_clue n" using True by (simp add: family_one_clue_def)
    ultimately show ?thesis by (auto simp: unsupported_iff)
  next
    case False
    note h = family_one_clue_has[OF False]
    show ?thesis
    proof (cases "x = 1")
      case True
      with h(2) show ?thesis by (auto simp: unsupported_iff)
    next
      case False
      with h(1) show ?thesis by (auto simp: unsupported_iff)
    qed
  qed
qed

lemma family_one_clue_nonempty: "family_one_clue c \<noteq> {||}"
  by (auto simp: family_one_clue_def range_1_10_def)

lemma one_clue_run:
  assumes "enumerates it"
  shows "\<exists>s ql s1. SudokuCSP grid_one_clue = Inr s \<and> csp_ok s \<and>
           ac3 it s = Inr ((True, ql), s1, []) \<and>
           5 |\<in>| dom_at s (0, 1) \<and> 5 |\<notin>| dom_at s1 (0, 1)"
proof -
  from SudokuCSP_ok[OF is_grid_one_clue] obtain s where
    s: "SudokuCSP grid_one_clue = Inr s" "csp_ok s"
    and d: "\<forall>c\<in>set cells. dom_at s c = initial_domain grid_one_clue c" by blast
  have c00: "(0, 0) \<in> set cells" and c01: "(0, 1) \<in> set cells" by (simp_all add: in_cells_iff)
  have d00: "dom_at s (0, 0) = {|5|}" and d01: "dom_at s (0, 1) = range_1_10"
    using d c00 c01 by (simp_all add: initial_domain_def clue_one_clue)
  have ne: "nonempty s" using d by (simp add: nonempty_def initial_domain_nonempty)
  have w: "within family_one_clue s"
    unfolding within_def
  proof
    fix c assume c: "c \<in> set cells"
    from d c have "dom_at s c = initial_domain grid_one_clue c" by blast
    then have "dom_at s c = (if c = (0, 0) then {|5|} else range_1_10)"
      using clue_one_clue[OF c00] by (simp add: initial_domain_def clue_one_clue[OF c])
    then show "family_one_clue c |\<subseteq>| dom_at s c"
      by (auto simp: family_one_clue_def)
  qed
  from ac3_succeeds[OF assms s(2) ne supported_family_one_clue w] family_one_clue_nonempty
  obtain ql s1 where r: "ac3 it s = Inr ((True, ql), s1, [])" and kept: "ac3_kept s s1"
    and ac: "arc_consistent s1" by blast
  have p: "(0, 0) |\<in>| peers (0, 1)" by (simp add: peers_iff related_def in_cells_iff)
  from ac c01 p have con: "consistent (dom_at s1 (0, 1)) (dom_at s1 (0, 0))"
    unfolding arc_consistent_def by blast
  from kept have "dom_at s1 (0, 0) |\<subseteq>| dom_at s (0, 0)" unfolding ac3_kept_def by blast
  with d00 have sub: "dom_at s1 (0, 0) |\<subseteq>| {|5|}" by simp
  have "5 |\<notin>| dom_at s1 (0, 1)"
  proof
    assume "5 |\<in>| dom_at s1 (0, 1)"
    with con have "\<not> unsupported (dom_at s1 (0, 0)) 5" by (simp add: consistent_def)
    then obtain y where "y |\<in>| dom_at s1 (0, 0)" "y \<noteq> 5" by (auto simp: unsupported_iff)
    with sub show False by auto
  qed
  moreover have "5 |\<in>| dom_at s (0, 1)" unfolding d01 by (simp add: range_1_10_def)
  ultimately show ?thesis using s r by blast
qed

text \<open>
  Claim C5. In a run of \<open>ac3\<close> on a solver object, the domain of every cell at the head of
  an iteration is a subset of its domain at the head of every earlier iteration, and so is its
  domain when \<open>ac3\<close> returns, with success or with failure; the sizes do not increase.
\<close>

theorem ac3_domains_only_shrink:
  assumes "enumerates it" and "csp_ok s"
    and "ac3_head it m (ac3_start it s) = Some earlier"
    and "ac3_head it (m + k) (ac3_start it s) = Some later"
  shows "dom_at (solver later) c |\<subseteq>| dom_at (solver earlier) c
         \<and> fcard (dom_at (solver later) c) \<le> fcard (dom_at (solver earlier) c)
         \<and> (\<forall>b ql s1 out. ac3 it s = Inr ((b, ql), s1, out) \<longrightarrow>
               dom_at s1 c |\<subseteq>| dom_at (solver earlier) c
               \<and> fcard (dom_at s1 c) \<le> fcard (dom_at (solver earlier) c))"
proof -
  note inv0 = ac3_inv_start[OF assms(1,2)]
  note inv = ac3_head_inv[OF assms(1) inv0 assms(3)]
  from assms(3,4) have h: "ac3_head it k earlier = Some later"
    by (simp add: ac3_head_add)
  have a: "dom_at (solver later) c |\<subseteq>| dom_at (solver earlier) c"
    by (rule ac3_head_shrinks[OF assms(1) inv h])
  have b: "dom_at s1 c |\<subseteq>| dom_at (solver earlier) c"
    if "ac3 it s = Inr ((b, ql), s1, out)" for b ql s1 out
  proof -
    from that obtain st1 where "ac3_loop it (ac3_start it s) = Inr (b, st1)" "s1 = solver st1"
      by (auto simp: ac3_def split: sum.splits)
    with ac3_loop_from_head[OF assms(3)] have "ac3_loop it earlier = Inr (b, st1)" by simp
    from ac3_loop_shrinks[OF assms(1) inv this] \<open>s1 = solver st1\<close> show ?thesis by simp
  qed
  from a b show ?thesis by (simp add: fcard_mono)
qed

theorem ac3_domains_only_shrink_witness:
  "\<exists>s n st. enumerates ascending \<and> csp_ok s \<and> SudokuCSP grid_one_clue = Inr s \<and>
     ac3_head ascending 0 (ac3_start ascending s) = Some (ac3_start ascending s) \<and>
     ac3_head ascending (0 + n) (ac3_start ascending s) = Some st \<and>
     5 |\<in>| dom_at (solver (ac3_start ascending s)) (0, 1) \<and> 5 |\<notin>| dom_at (solver st) (0, 1) \<and>
     dom_at (solver st) (0, 1) |\<subseteq>| dom_at (solver (ac3_start ascending s)) (0, 1) \<and>
     fcard (dom_at (solver st) (0, 1)) \<le> fcard (dom_at (solver (ac3_start ascending s)) (0, 1))"
proof -
  note e = enumerates_ascending
  from one_clue_run[OF e] obtain s ql s1 where
    s: "SudokuCSP grid_one_clue = Inr s" "csp_ok s"
    and r: "ac3 ascending s = Inr ((True, ql), s1, [])"
    and m: "5 |\<in>| dom_at s (0, 1)" "5 |\<notin>| dom_at s1 (0, 1)" by blast
  from r obtain st where l: "ac3_loop ascending (ac3_start ascending s) = Inr (True, st)"
    and s1: "s1 = solver st"
    by (auto simp: ac3_def split: sum.splits)
  from ac3_loop_reaches_head[OF e ac3_inv_start[OF e s(2)] l] obtain n where
    h: "ac3_head ascending (0 + n) (ac3_start ascending s) = Some st" by auto
  have h0: "ac3_head ascending 0 (ac3_start ascending s) = Some (ac3_start ascending s)" by simp
  have st: "solver (ac3_start ascending s) = s" by (simp add: ac3_start_ok[OF s(2)])
  from ac3_domains_only_shrink[OF e s(2) h0 h, of "(0, 1)"] m
  have "5 |\<in>| dom_at (solver (ac3_start ascending s)) (0, 1) \<and>
     5 |\<notin>| dom_at (solver st) (0, 1) \<and>
     dom_at (solver st) (0, 1) |\<subseteq>| dom_at (solver (ac3_start ascending s)) (0, 1) \<and>
     fcard (dom_at (solver st) (0, 1)) \<le> fcard (dom_at (solver (ac3_start ascending s)) (0, 1))"
    unfolding s1 st by blast
  with s h h0 e show ?thesis by blast
qed

text \<open>
  Claim C6. If \<open>ac3\<close> returns \<open>True\<close> on a solver object, a second run of \<open>ac3\<close> on the object
  it left returns \<open>True\<close> again and leaves the object as it was: no domain changes.
\<close>

theorem ac3_idempotent:
  assumes "enumerates it" and "csp_ok s" and "ac3 it s = Inr ((True, ql), s1, out)"
  shows "\<exists>ql1. ac3 it s1 = Inr ((True, ql1), s1, [])"
proof -
  from ac3_ok[OF assms(1,2)] assms(3) have "csp_ok s1" "arc_consistent s1"
    by (auto simp: ac3_kept_def)
  then show ?thesis by (rule ac3_fixed[OF assms(1)])
qed

theorem ac3_idempotent_witness:
  "\<exists>s ql s1 out ql1. enumerates ascending \<and> csp_ok s \<and> SudokuCSP grid_one_clue = Inr s \<and>
     ac3 ascending s = Inr ((True, ql), s1, out) \<and>
     5 |\<in>| dom_at s (0, 1) \<and> 5 |\<notin>| dom_at s1 (0, 1) \<and>
     ac3 ascending s1 = Inr ((True, ql1), s1, [])"
proof -
  note e = enumerates_ascending
  from one_clue_run[OF e] obtain s ql s1 where
    s: "SudokuCSP grid_one_clue = Inr s" "csp_ok s"
    and r: "ac3 ascending s = Inr ((True, ql), s1, [])"
    and m: "5 |\<in>| dom_at s (0, 1)" "5 |\<notin>| dom_at s1 (0, 1)" by blast
  from ac3_idempotent[OF e s(2) r] obtain ql1 where
    "ac3 ascending s1 = Inr ((True, ql1), s1, [])" by blast
  with s r m e show ?thesis by blast
qed

subsection \<open>The size of the worklist\<close>













section \<open>Backtracking search\<close>

subsection \<open>Assignments\<close>

definition asg_ok :: "assignment \<Rightarrow> bool" where
  "asg_ok a \<longleftrightarrow> distinct (map fst a) \<and> set (map fst a) \<subseteq> set cells"

definition consistent_asg :: "assignment \<Rightarrow> bool" where
  "consistent_asg a \<longleftrightarrow>
     (\<forall>c n v. n |\<in>| peers c \<longrightarrow> map_of a c = Some v \<longrightarrow> map_of a n \<noteq> Some v)"

definition in_domains :: "csp \<Rightarrow> assignment \<Rightarrow> bool" where
  "in_domains s a \<longleftrightarrow> (\<forall>c v. map_of a c = Some v \<longrightarrow> v |\<in>| dom_at s c)"

definition good :: "csp \<Rightarrow> assignment \<Rightarrow> bool" where
  "good s a \<longleftrightarrow> asg_ok a \<and> consistent_asg a \<and> in_domains s a"

lemma contains_iff: "contains a c \<longleftrightarrow> c \<in> set (map fst a)"
  by (simp add: contains_def map_of_eq_None_iff)

lemma good_empty: "good s []"
  by (simp add: good_def asg_ok_def consistent_asg_def in_domains_def)

lemma length_update_fresh: "\<not> contains a k \<Longrightarrow> length (AList.update k v a) = Suc (length a)"
  by (induction a) (auto simp: contains_iff)

lemma delete_update_fresh: "\<not> contains a k \<Longrightarrow> AList.delete k (AList.update k v a) = a"
  by (simp add: delete_update_same contains_iff)

lemma contains_update: "contains (AList.update k v a) k"
  by (simp add: contains_def update_conv')

lemma asg_ok_update: "asg_ok a \<Longrightarrow> k \<in> set cells \<Longrightarrow> asg_ok (AList.update k v a)"
  by (auto simp: asg_ok_def distinct_update update_keys)

lemma asg_ok_length:
  assumes "asg_ok a"
  shows "length a \<le> 81"
proof -
  from assms have "card (set (map fst a)) \<le> card (set cells)"
    by (intro card_mono) (simp_all add: asg_ok_def)
  moreover have "card (set (map fst a)) = length a"
    using assms distinct_card[of "map fst a"] by (simp add: asg_ok_def)
  moreover have "card (set cells) = 81"
    using distinct_card[OF distinct_cells] by (simp add: length_cells)
  ultimately show ?thesis by simp
qed

lemma asg_ok_complete:
  assumes "asg_ok a" and "length a = 81"
  shows "set (map fst a) = set cells"
proof -
  have "card (set (map fst a)) = length a"
    using assms distinct_card[of "map fst a"] by (simp add: asg_ok_def)
  moreover have "card (set cells) = 81"
    using distinct_card[OF distinct_cells] by (simp add: length_cells)
  ultimately have "card (set cells) \<le> card (set (map fst a))" using assms(2) by simp
  with assms(1) show ?thesis
    by (intro card_seteq) (simp_all add: asg_ok_def)
qed

lemma asg_ok_unassigned:
  assumes "asg_ok a" and "length a \<noteq> 81"
  shows "\<exists>c\<in>set cells. \<not> contains a c"
proof (rule ccontr)
  assume "\<not> (\<exists>c\<in>set cells. \<not> contains a c)"
  then have "set cells \<subseteq> set (map fst a)" by (auto simp: contains_iff)
  then have "card (set cells) \<le> card (set (map fst a))" by (intro card_mono) simp_all
  moreover have "card (set (map fst a)) = length a"
    using assms distinct_card[of "map fst a"] by (simp add: asg_ok_def)
  moreover have "card (set cells) = 81"
    using distinct_card[OF distinct_cells] by (simp add: length_cells)
  ultimately show False using asg_ok_length[OF assms(1)] assms(2) by simp
qed

lemma good_update:
  assumes "good s a" and "var \<in> set cells" and "\<not> contains a var" and "v |\<in>| dom_at s var"
    and "\<forall>n. n |\<in>| peers var \<longrightarrow> map_of a n \<noteq> Some v"
  shows "good s (AList.update var v a)"
proof -
  from assms(1) have ok: "asg_ok a" and c: "consistent_asg a" and d: "in_domains s a"
    by (simp_all add: good_def)
  have keys: "\<And>k w. map_of a k = Some w \<Longrightarrow> k \<in> set cells"
    using ok by (auto simp: asg_ok_def dest: map_of_SomeD)
  have "consistent_asg (AList.update var v a)"
    unfolding consistent_asg_def
  proof (intro allI impI)
    fix k n w
    assume n: "n |\<in>| peers k" and k: "map_of (AList.update var v a) k = Some w"
    show "map_of (AList.update var v a) n \<noteq> Some w"
    proof (cases "k = var")
      case True
      with k have w: "w = v" by (simp add: update_conv')
      from n True have "n \<noteq> var" using peers_neq by blast
      moreover from assms(5) n True have "map_of a n \<noteq> Some v" by blast
      ultimately show ?thesis using w by (simp add: update_conv')
    next
      case False
      with k have ka: "map_of a k = Some w" by (simp add: update_conv')
      show ?thesis
      proof (cases "n = var")
        case True
        from keys[OF ka] n have "k |\<in>| peers n" by (rule peers_sym)
        with assms(5) True have "map_of a k \<noteq> Some v" by blast
        with ka have "w \<noteq> v" by auto
        with True show ?thesis by (simp add: update_conv')
      next
        case False
        from c n ka have "map_of a n \<noteq> Some w" unfolding consistent_asg_def by blast
        with False show ?thesis by (simp add: update_conv')
      qed
    qed
  qed
  moreover have "in_domains s (AList.update var v a)"
    using d assms(4) unfolding in_domains_def by (auto simp: update_conv' split: if_splits)
  ultimately show ?thesis
    using asg_ok_update[OF ok assms(2)] by (simp add: good_def)
qed

subsection \<open>The helpers of \<open>backtrack\<close> on a well-formed solver object\<close>

lemma mapM_all: "(\<forall>x\<in>set xs. f x = Inr (g x)) \<Longrightarrow> mapM f xs = Inr (map g xs)"
  by (induction xs) auto

lemma mapM_state_all:
  "(\<forall>x\<in>set xs. f x s = Inr (g x, s)) \<Longrightarrow> mapM_state f xs s = Inr (map g xs, s)"
  by (induction xs) auto

lemma first_min_mem: "first_min b xs \<in> set (b # xs)"
  by (induction xs arbitrary: b) (auto split: if_splits)

lemma select_unassigned_variable_ok:
  assumes "csp_ok s" and "\<exists>c\<in>set cells. \<not> contains a c"
  shows "\<exists>var. select_unassigned_variable s a = Inr var \<and> var \<in> set cells \<and> \<not> contains a var"
proof -
  let ?un = "filter (\<lambda>v. \<not> contains a v) cells"
  let ?key = "\<lambda>var. (fcard (dom_at s var), var)"
  have k: "map fst (domains s) = cells" using assms(1) by (simp add: csp_ok_def)
  have "\<forall>var\<in>set ?un. (case getitem (domains s) var of Inl e \<Rightarrow> Inl e
                         | Inr D \<Rightarrow> Inr (fcard D, var)) = Inr (?key var)"
    by (simp add: getitem_ok[OF assms(1)])
  then have m: "mapM (\<lambda>var. case getitem (domains s) var of Inl e \<Rightarrow> Inl e
                         | Inr D \<Rightarrow> Inr (fcard D, var)) ?un = Inr (map ?key ?un)"
    by (rule mapM_all)
  from assms(2) obtain u us where un: "?un = u # us"
    by (cases ?un) (auto simp: filter_empty_conv)
  let ?r = "snd (first_min (?key u) (map ?key us))"
  have "first_min (?key u) (map ?key us) \<in> set (map ?key (u # us))"
    using first_min_mem[of "?key u" "map ?key us"] by simp
  then have "?r \<in> set ?un" unfolding un by auto
  then have "?r \<in> set cells \<and> \<not> contains a ?r" by simp
  moreover have "select_unassigned_variable s a = Inr ?r"
  proof -
    have "select_unassigned_variable s a =
        (case Inr (map ?key ?un) of
           Inl e \<Rightarrow> Inl e
         | Inr [] \<Rightarrow> Inl ValueError
         | Inr (kv # kvs) \<Rightarrow> Inr (snd (first_min kv kvs)))"
      unfolding select_unassigned_variable_def Let_def k m ..
    also have "\<dots> = Inr ?r" unfolding un by simp
    finally show ?thesis .
  qed
  ultimately show ?thesis by blast
qed

lemma is_consistent_loop_iff:
  "is_consistent_loop v a ns \<longleftrightarrow> (\<forall>n\<in>set ns. map_of a n \<noteq> Some v)"
  by (induction ns) (auto simp: contains_def getitem_def split: option.splits)

lemma is_consistent_ok:
  assumes "enumerates it" and "csp_ok s" and "var \<in> set cells"
  shows "is_consistent it s var v a = ((\<forall>n. n |\<in>| peers var \<longrightarrow> map_of a n \<noteq> Some v), s)"
proof -
  have "is_consistent_loop v a (cells_of it (peers var)) \<longleftrightarrow>
        (\<forall>n. n |\<in>| peers var \<longrightarrow> map_of a n \<noteq> Some v)"
    unfolding is_consistent_loop_iff enumerates_cells(1)[OF assms(1)] by blast
  then show ?thesis
    by (simp only: is_consistent_def neighbors_get_ok[OF assms(2,3)] prod.case)
qed

definition conflicts :: "csp \<Rightarrow> int \<Rightarrow> assignment \<Rightarrow> cell \<Rightarrow> nat" where
  "conflicts s v a n =
     (if contains a n then 0
      else fcard (ffilter (\<lambda>nv. \<not> constraint_satisfied v nv) (dom_at s n)))"

lemma count_constraints_loop:
  assumes "csp_ok s" and "set ns \<subseteq> set cells"
  shows "foldM (count_constraints_step s v a) ns k = Inr (k + sum_list (map (conflicts s v a) ns))"
  using assms(2)
proof (induction ns arbitrary: k)
  case Nil
  then show ?case by simp
next
  case (Cons n ns)
  then have "n \<in> set cells" by simp
  then have "count_constraints_step s v a n k = Inr (k + conflicts s v a n)"
    by (simp add: count_constraints_step_def conflicts_def getitem_ok[OF assms(1)])
  with Cons show ?case by simp
qed

lemma count_constraints_ok:
  assumes "enumerates it" and "csp_ok s" and "var \<in> set cells"
  shows "count_constraints it s var v a =
           Inr (sum_list (map (conflicts s v a) (cells_of it (peers var))), s)"
proof -
  have "set (cells_of it (peers var)) \<subseteq> set cells"
    unfolding enumerates_cells(1)[OF assms(1)] using peers_in_cells by blast
  from count_constraints_loop[OF assms(2) this, of v a 0] show ?thesis
    by (simp add: count_constraints_def neighbors_get_ok[OF assms(2,3)])
qed

lemma least_constraining_values_ok:
  assumes "enumerates it" and "csp_ok s" and "var \<in> set cells"
  shows "\<exists>vals. least_constraining_values it s var a = Inr (vals, s) \<and>
                 set vals = fset (dom_at s var)"
proof -
  let ?vals = "values_of it (dom_at s var)"
  let ?cnt = "\<lambda>v. sum_list (map (conflicts s v a) (cells_of it (peers var)))"
  have "mapM_state (\<lambda>v s1. count_constraints it s1 var v a) ?vals s = Inr (map ?cnt ?vals, s)"
    by (rule mapM_state_all) (simp add: count_constraints_ok[OF assms])
  then have "least_constraining_values it s var a =
      Inr (map snd (sort_key fst (zip (map ?cnt ?vals) ?vals)), s)"
    by (simp add: least_constraining_values_def getitem_ok[OF assms(2,3)] Let_def)
  moreover have "set (map snd (sort_key fst (zip (map ?cnt ?vals) ?vals))) = set ?vals"
  proof -
    have "set (map snd (sort_key fst (zip (map ?cnt ?vals) ?vals))) =
          set (map snd (zip (map ?cnt ?vals) ?vals))"
      by (simp only: set_map set_sort)
    also have "map snd (zip (map ?cnt ?vals) ?vals) = ?vals"
      by (rule map_snd_zip) simp
    finally show ?thesis .
  qed
  ultimately show ?thesis
    by (simp add: enumerates_values(1)[OF assms(1)])
qed

subsection \<open>The equations of \<open>backtrack\<close>\<close>

lemma backtrack_complete:
  "length a = 81 \<Longrightarrow>
   backtrack_from it (At_entry, d) (s, a, lg) = Some (Inr (True, s, a, lg @ [Enter d]))"
  by (subst backtrack_from.simps) simp

lemma backtrack_choose:
  "length a \<noteq> 81 \<Longrightarrow> select_unassigned_variable s a = Inr var \<Longrightarrow>
   least_constraining_values it s var a = Inr (vals, s1) \<Longrightarrow>
   backtrack_from it (At_entry, d) (s, a, lg) =
   backtrack_from it (In_loop var vals, d) (s1, a, lg @ [Enter d])"
  by (subst backtrack_from.simps) simp

lemma backtrack_exhausted:
  "backtrack_from it (In_loop var [], d) (s, a, lg) = Some (Inr (False, s, a, lg))"
  by (subst backtrack_from.simps) simp

lemma backtrack_skip:
  "is_consistent it s var v a = (False, s1) \<Longrightarrow>
   backtrack_from it (In_loop var (v # vs), d) (s, a, lg) =
   backtrack_from it (In_loop var vs, d) (s1, a, lg)"
  by (subst backtrack_from.simps) simp

lemma backtrack_try:
  "is_consistent it s var v a = (True, s1) \<Longrightarrow>
   backtrack_from it (In_loop var (v # vs), d) (s, a, lg) =
   Option.bind
     (backtrack_from it (At_entry, Suc d) (s1, AList.update var v a, lg @ [Try var v]))
     (\<lambda>result. case result of
        Inl e \<Rightarrow> Some (Inl e)
      | Inr r \<Rightarrow>
          (case r of (found, s2, a2, lg2) \<Rightarrow>
             if found then Some (Inr (True, s2, a2, lg2))
             else if contains a2 var
             then backtrack_from it (In_loop var vs, d) (s2, AList.delete var a2, lg2)
             else Some (Inl KeyError)))"
  by (subst backtrack_from.simps) simp

subsection \<open>What the search returns\<close>

definition solution_of :: "csp \<Rightarrow> (cell \<Rightarrow> int) \<Rightarrow> bool" where
  "solution_of s t \<longleftrightarrow>
     (\<forall>c\<in>set cells. t c |\<in>| dom_at s c) \<and>
     (\<forall>c\<in>set cells. \<forall>n. n |\<in>| peers c \<longrightarrow> t c \<noteq> t n)"

definition extends :: "assignment \<Rightarrow> (cell \<Rightarrow> int) \<Rightarrow> bool" where
  "extends a t \<longleftrightarrow> (\<forall>c v. map_of a c = Some v \<longrightarrow> t c = v)"

definition depths_ok :: "nat \<Rightarrow> nat \<Rightarrow> event list \<Rightarrow> bool" where
  "depths_ok d n ev \<longleftrightarrow> (\<forall>e. Enter e \<in> set ev \<longrightarrow> d \<le> e \<and> e + n \<le> d + 81)"

text \<open>The search from the assignment \<open>a\<close> at depth \<open>d\<close> returns, leaves the solver object as it
  was, and either has found a complete consistent assignment that extends \<open>a\<close>, or has
  restored \<open>a\<close> and no solution that extends \<open>a\<close> is among those tried.\<close>

definition search_result ::
  "csp \<Rightarrow> nat \<Rightarrow> assignment \<Rightarrow> event list \<Rightarrow> ((cell \<Rightarrow> int) \<Rightarrow> bool) \<Rightarrow>
   (error + bool \<times> search_state) option \<Rightarrow> bool" where
  "search_result s d a lg tried r \<longleftrightarrow>
     (\<exists>found a1 ev.
        r = Some (Inr (found, s, a1, lg @ ev)) \<and> depths_ok d (length a) ev \<and>
        (if found
         then good s a1 \<and> length a1 = 81 \<and> (\<forall>c v. map_of a c = Some v \<longrightarrow> map_of a1 c = Some v)
         else a1 = a \<and> (\<forall>t. solution_of s t \<and> extends a t \<longrightarrow> \<not> tried t)))"

lemma search_result_prefix:
  assumes "search_result s d a (lg @ pre) tried1 r" and "depths_ok d (length a) pre"
    and "\<And>t. solution_of s t \<Longrightarrow> extends a t \<Longrightarrow> tried t \<Longrightarrow> tried1 t"
  shows "search_result s d a lg tried r"
proof -
  from assms(1) obtain found a1 ev where
    r: "r = Some (Inr (found, s, a1, (lg @ pre) @ ev))" and dp: "depths_ok d (length a) ev"
    and c: "if found
         then good s a1 \<and> length a1 = 81 \<and> (\<forall>c v. map_of a c = Some v \<longrightarrow> map_of a1 c = Some v)
         else a1 = a \<and> (\<forall>t. solution_of s t \<and> extends a t \<longrightarrow> \<not> tried1 t)"
    unfolding search_result_def by blast
  have "depths_ok d (length a) (pre @ ev)"
    using assms(2) dp by (auto simp: depths_ok_def)
  moreover have "if found
         then good s a1 \<and> length a1 = 81 \<and> (\<forall>c v. map_of a c = Some v \<longrightarrow> map_of a1 c = Some v)
         else a1 = a \<and> (\<forall>t. solution_of s t \<and> extends a t \<longrightarrow> \<not> tried t)"
    using c assms(3) by (cases found) auto
  moreover have "r = Some (Inr (found, s, a1, lg @ (pre @ ev)))" using r by simp
  ultimately show ?thesis unfolding search_result_def by blast
qed

lemma backtrack_loop:
  assumes e: "enumerates it" and ok: "csp_ok s" and g: "good s a"
    and var: "var \<in> set cells" and fresh: "\<not> contains a var"
    and entry: "\<And>a1 lg1. good s a1 \<Longrightarrow> length a1 = Suc (length a) \<Longrightarrow>
                  search_result s (Suc d) a1 lg1 (\<lambda>t. True)
                    (backtrack_from it (At_entry, Suc d) (s, a1, lg1))"
  shows "set vals \<subseteq> fset (dom_at s var) \<Longrightarrow>
         search_result s d a lg (\<lambda>t. t var \<in> set vals)
           (backtrack_from it (In_loop var vals, d) (s, a, lg))"
proof (induction vals arbitrary: lg)
  case Nil
  show ?case
    unfolding search_result_def backtrack_exhausted
    by (intro exI[of _ False] exI[of _ a] exI[of _ "[]"]) (simp add: depths_ok_def)
next
  case (Cons v vs)
  from Cons.prems have v: "v |\<in>| dom_at s var" and vs: "set vs \<subseteq> fset (dom_at s var)"
    by simp_all
  note ic = is_consistent_ok[OF e ok var, of v a]
  show ?case
  proof (cases "\<forall>n. n |\<in>| peers var \<longrightarrow> map_of a n \<noteq> Some v")
    case False
    then obtain n where n: "n |\<in>| peers var" "map_of a n = Some v" by blast
    from False ic have eq: "backtrack_from it (In_loop var (v # vs), d) (s, a, lg) =
        backtrack_from it (In_loop var vs, d) (s, a, lg)"
      by (intro backtrack_skip) simp
    have "search_result s d a (lg @ []) (\<lambda>t. t var \<in> set vs)
            (backtrack_from it (In_loop var vs, d) (s, a, lg))"
      using Cons.IH[OF vs, of lg] by simp
    then show ?thesis
      unfolding eq
    proof (rule search_result_prefix)
      show "depths_ok d (length a) []" by (simp add: depths_ok_def)
    next
      fix t assume t: "solution_of s t" "extends a t" "t var \<in> set (v # vs)"
      from t(2) n(2) have "t n = v" unfolding extends_def by blast
      moreover from t(1) var n(1) have "t var \<noteq> t n" unfolding solution_of_def by blast
      ultimately show "t var \<in> set vs" using t(3) by auto
    qed
  next
    case True
    let ?a1 = "AList.update var v a"
    let ?lg1 = "lg @ [Try var v]"
    have g1: "good s ?a1" by (rule good_update[OF g var fresh v True])
    have l1: "length ?a1 = Suc (length a)" by (rule length_update_fresh[OF fresh])
    from entry[OF g1 l1, of ?lg1] obtain found a2 ev where
      r1: "backtrack_from it (At_entry, Suc d) (s, ?a1, ?lg1) = Some (Inr (found, s, a2, ?lg1 @ ev))"
      and dp: "depths_ok (Suc d) (length ?a1) ev"
      and c: "if found
         then good s a2 \<and> length a2 = 81 \<and> (\<forall>c v. map_of ?a1 c = Some v \<longrightarrow> map_of a2 c = Some v)
         else a2 = ?a1 \<and> (\<forall>t. solution_of s t \<and> extends ?a1 t \<longrightarrow> \<not> True)"
      unfolding search_result_def by blast
    have dpre: "depths_ok d (length a) (Try var v # ev)"
      using dp by (auto simp: depths_ok_def l1)
    from True ic have tr: "is_consistent it s var v a = (True, s)" by simp
    note eq = backtrack_try[OF tr, of vs d lg]
    show ?thesis
    proof (cases found)
      case True
      with c have c1: "good s a2" "length a2 = 81"
        "\<forall>c v. map_of ?a1 c = Some v \<longrightarrow> map_of a2 c = Some v" by simp_all
      have "\<forall>c w. map_of a c = Some w \<longrightarrow> map_of a2 c = Some w"
      proof (intro allI impI)
        fix c w assume cw: "map_of a c = Some w"
        with fresh have "c \<noteq> var" by (auto simp: contains_def)
        with cw have "map_of ?a1 c = Some w" by (simp add: update_conv')
        with c1(3) show "map_of a2 c = Some w" by blast
      qed
      moreover have "backtrack_from it (In_loop var (v # vs), d) (s, a, lg) =
          Some (Inr (True, s, a2, lg @ (Try var v # ev)))"
        unfolding eq r1 using True by simp
      ultimately show ?thesis
        unfolding search_result_def using dpre c1(1,2)
        by (intro exI[of _ True] exI[of _ a2] exI[of _ "Try var v # ev"]) simp
    next
      case False
      with c have a2: "a2 = ?a1" and none: "\<forall>t. solution_of s t \<longrightarrow> \<not> extends ?a1 t" by auto
      have "backtrack_from it (In_loop var (v # vs), d) (s, a, lg) =
          backtrack_from it (In_loop var vs, d) (s, a, lg @ (Try var v # ev))"
        unfolding eq r1 using False
        by (simp add: a2 contains_update delete_update_fresh[OF fresh])
      moreover have "search_result s d a lg (\<lambda>t. t var \<in> set (v # vs))
          (backtrack_from it (In_loop var vs, d) (s, a, lg @ (Try var v # ev)))"
      proof (rule search_result_prefix[OF Cons.IH[OF vs] dpre])
        fix t assume t: "solution_of s t" "extends a t" "t var \<in> set (v # vs)"
        have "t var \<noteq> v"
        proof
          assume "t var = v"
          with t(2) have "extends ?a1 t"
            by (auto simp: extends_def update_conv' split: if_splits)
          with none t(1) show False by blast
        qed
        with t(3) show "t var \<in> set vs" by auto
      qed
      ultimately show ?thesis by simp
    qed
  qed
qed

lemma backtrack_entry:
  assumes e: "enumerates it" and ok: "csp_ok s"
  shows "good s a \<Longrightarrow>
         search_result s d a lg (\<lambda>t. True) (backtrack_from it (At_entry, d) (s, a, lg))"
proof (induction "81 - length a" arbitrary: a d lg rule: less_induct)
  case less
  note g = less.prems
  from g have aok: "asg_ok a" by (simp add: good_def)
  show ?case
  proof (cases "length a = 81")
    case True
    show ?thesis
      unfolding search_result_def backtrack_complete[OF True]
      using g True
      by (intro exI[of _ True] exI[of _ a] exI[of _ "[Enter d]"]) (simp add: depths_ok_def)
  next
    case False
    with asg_ok_length[OF aok] have lt: "length a < 81" by simp
    from select_unassigned_variable_ok[OF ok asg_ok_unassigned[OF aok False]] obtain var where
      sel: "select_unassigned_variable s a = Inr var" and var: "var \<in> set cells"
      and fresh: "\<not> contains a var" by blast
    from least_constraining_values_ok[OF e ok var, of a] obtain vals where
      lcv: "least_constraining_values it s var a = Inr (vals, s)"
      and vals: "set vals = fset (dom_at s var)" by blast
    note eq = backtrack_choose[OF False sel lcv, of d lg]
    have entry: "search_result s (Suc d) a1 lg1 (\<lambda>t. True)
                    (backtrack_from it (At_entry, Suc d) (s, a1, lg1))"
      if "good s a1" "length a1 = Suc (length a)" for a1 lg1
      using that lt by (intro less.hyps) simp_all
    have "search_result s d a (lg @ [Enter d]) (\<lambda>t. t var \<in> set vals)
           (backtrack_from it (In_loop var vals, d) (s, a, lg @ [Enter d]))"
      by (rule backtrack_loop[OF e ok g var fresh entry]) (simp_all add: vals)
    then show ?thesis
      unfolding eq
    proof (rule search_result_prefix)
      show "depths_ok d (length a) [Enter d]" using lt by (simp add: depths_ok_def)
    next
      fix t assume "solution_of s t"
      with var show "t var \<in> set vals" by (simp add: vals solution_of_def)
    qed
  qed
qed

section \<open>Solved grids\<close>

text \<open>The rows, the columns and the 3x3 blocks of the grid, as lists of cells.\<close>

definition rows :: "cell list list" where
  "rows = map (\<lambda>i. map (\<lambda>j. (i, j)) [0..<9]) [0..<9]"

definition columns :: "cell list list" where
  "columns = map (\<lambda>j. map (\<lambda>i. (i, j)) [0..<9]) [0..<9]"

definition blocks :: "cell list list" where
  "blocks = map (\<lambda>b. List.product [3 * fst b..<3 * fst b + 3] [3 * snd b..<3 * snd b + 3])
              (List.product [0..<3] [0..<3])"

definition units :: "cell list list" where
  "units = rows @ columns @ blocks"

text \<open>A list of values holds each of 1 to 9 exactly once.\<close>

definition each_once :: "int list \<Rightarrow> bool" where
  "each_once xs \<longleftrightarrow> (\<forall>v\<in>{1..9}. count_list xs v = 1)"

definition valid_grid :: "grid \<Rightarrow> bool" where
  "valid_grid r \<longleftrightarrow> is_grid r \<and> (\<forall>u\<in>set units. each_once (map (clue r) u))"

definition keeps_clues :: "grid \<Rightarrow> grid \<Rightarrow> bool" where
  "keeps_clues g r \<longleftrightarrow> (\<forall>c\<in>set cells. clue g c \<noteq> 0 \<longrightarrow> clue r c = clue g c)"

definition grid_of :: "(cell \<Rightarrow> int) \<Rightarrow> grid" where
  "grid_of t = map (\<lambda>i. map (\<lambda>j. t (i, j)) [0..<9]) [0..<9]"

subsection \<open>Lists that hold each value once\<close>

lemma count_list_distinct: "distinct xs \<Longrightarrow> count_list xs v = (if v \<in> set xs then 1 else 0)"
  by (induction xs) auto

lemma distinct_of_counts: "(\<forall>x\<in>set xs. count_list xs x \<le> 1) \<Longrightarrow> distinct xs"
proof (induction xs)
  case Nil
  then show ?case by simp
next
  case (Cons x xs)
  from Cons.prems have "count_list xs x = 0" by simp
  then have "x \<notin> set xs" by (simp add: count_list_0_iff)
  moreover have "\<forall>y\<in>set xs. count_list xs y \<le> 1"
  proof
    fix y assume "y \<in> set xs"
    with Cons.prems have "count_list (x # xs) y \<le> 1" by simp
    then show "count_list xs y \<le> 1" by (simp split: if_splits)
  qed
  ultimately show ?case using Cons.IH by simp
qed

lemma each_once_of_distinct:
  assumes "distinct xs" and "length xs = 9" and "set xs \<subseteq> {1..9}"
  shows "each_once xs"
proof -
  have "card (set xs) = card {1..9::int}" using assms(1,2) by (simp add: distinct_card)
  with assms(3) have "set xs = {1..9}" by (intro card_subset_eq) simp_all
  with assms(1) show ?thesis by (simp add: each_once_def count_list_distinct)
qed

lemma each_once_distinct:
  assumes "each_once xs" and "length xs = 9"
  shows "distinct xs" and "set xs = {1..9}"
proof -
  let ?X = "set xs \<union> {1..9}"
  have sub: "{1..9} \<subseteq> set xs"
  proof
    fix v :: int assume "v \<in> {1..9}"
    with assms(1) have "count_list xs v = 1" by (simp add: each_once_def)
    then show "v \<in> set xs" using count_list_0_iff[of xs v] by auto
  qed
  have "sum (count_list xs) ?X = length xs" by (intro sum_count_set) simp_all
  moreover have "?X = {1..9} \<union> (set xs - {1..9})" by auto
  then have "sum (count_list xs) ?X =
               sum (count_list xs) {1..9} + sum (count_list xs) (set xs - {1..9})"
    by (metis Diff_disjoint List.finite_set finite_Diff finite_atLeastAtMost_int sum.union_disjoint)
  moreover have "sum (count_list xs) {1..9} = sum (\<lambda>v. 1) {1..9::int}"
    using assms(1) by (intro sum.cong) (simp_all add: each_once_def)
  ultimately have "sum (count_list xs) (set xs - {1..9}) = 0" using assms(2) by simp
  then have "\<forall>x\<in>set xs - {1..9}. count_list xs x = 0" by simp
  then have "set xs - {1..9} = {}" using count_list_0_iff[of xs] by blast
  with sub show s: "set xs = {1..9}" by auto
  show "distinct xs"
  proof (rule distinct_of_counts, rule ballI)
    fix x assume "x \<in> set xs"
    with s assms(1) show "count_list xs x \<le> 1" by (simp add: each_once_def)
  qed
qed

subsection \<open>Units and neighbours\<close>

lemma units_checked:
  "list_all (\<lambda>u. distinct u \<and> length u = 9 \<and>
              list_all (\<lambda>c. fst c < 9 \<and> snd c < 9 \<and> list_all (\<lambda>n. n = c \<or> related c n) u) u) units"
  by code_simp


lemma unit_facts:
  assumes "u \<in> set units"
  shows "distinct u" and "length u = 9" and "set u \<subseteq> set cells"
    and "\<And>c n. c \<in> set u \<Longrightarrow> n \<in> set u \<Longrightarrow> n \<noteq> c \<Longrightarrow> n |\<in>| peers c"
proof -
  from units_checked assms have u: "distinct u \<and> length u = 9 \<and>
      (\<forall>c\<in>set u. fst c < 9 \<and> snd c < 9 \<and> (\<forall>n\<in>set u. n = c \<or> related c n))"
    unfolding list_all_iff by blast
  then show "distinct u" and "length u = 9" by simp_all
  show sub: "set u \<subseteq> set cells"
  proof
    fix c assume "c \<in> set u"
    with u have "fst c < 9 \<and> snd c < 9" by blast
    then show "c \<in> set cells" by (cases c) (simp add: in_cells_iff)
  qed
  fix c n assume "c \<in> set u" and n: "n \<in> set u" and "n \<noteq> c"
  with u have "related c n" by blast
  with n sub show "n |\<in>| peers c" by (auto simp: peers_iff)
qed

lemma peers_share_unit:
  assumes "c \<in> set cells" and "n |\<in>| peers c"
  shows "\<exists>u\<in>set units. c \<in> set u \<and> n \<in> set u"
proof -
  obtain i j where c: "c = (i, j)" by (cases c)
  obtain k l where n: "n = (k, l)" by (cases n)
  from assms c n have b: "i < 9" "j < 9" "k < 9" "l < 9"
    by (simp_all add: in_cells_iff peers_iff)
  from assms(2) c n have "k = i \<or> l = j \<or> (k div 3 = i div 3 \<and> l div 3 = j div 3)"
    by (simp add: peers_iff related_def)
  then consider (row) "k = i" | (col) "l = j" | (blk) "k div 3 = i div 3" "l div 3 = j div 3"
    by blast
  then show ?thesis
  proof cases
    case row
    let ?u = "map (\<lambda>j. (i, j)) [0..<9]"
    have "?u \<in> set rows" using b unfolding rows_def by (auto intro!: image_eqI[where x = i])
    then have "?u \<in> set units" by (simp add: units_def)
    moreover have "c \<in> set ?u \<and> n \<in> set ?u" using b c n row by simp
    ultimately show ?thesis by blast
  next
    case col
    let ?u = "map (\<lambda>i. (i, j)) [0..<9]"
    have "?u \<in> set columns" using b unfolding columns_def by (auto intro!: image_eqI[where x = j])
    then have "?u \<in> set units" by (simp add: units_def)
    moreover have "c \<in> set ?u \<and> n \<in> set ?u" using b c n col by simp
    ultimately show ?thesis by blast
  next
    case blk
    let ?b = "(i div 3, j div 3)"
    let ?u = "List.product [3 * fst ?b..<3 * fst ?b + 3] [3 * snd ?b..<3 * snd ?b + 3]"
    have "i div 3 < 3" "j div 3 < 3" using b by linarith+
    then have "?b \<in> set (List.product [0..<3] [0..<3])" by simp
    then have "(\<lambda>b. List.product [3 * fst b..<3 * fst b + 3] [3 * snd b..<3 * snd b + 3]) ?b
                 \<in> set blocks"
      unfolding blocks_def set_map by (rule imageI)
    then have "?u \<in> set blocks" by simp
    then have "?u \<in> set units" by (simp add: units_def)
    moreover have ar: "\<And>x::nat. 3 * (x div 3) \<le> x \<and> x < 3 * (x div 3) + 3" by linarith
    have "c \<in> set ?u" using c ar[of i] ar[of j] by simp
    moreover have "n \<in> set ?u" using n ar[of k] ar[of l] by (simp add: blk)
    ultimately show ?thesis by blast
  qed
qed

subsection \<open>Grids and functions on cells\<close>

lemma is_grid_grid_of: "is_grid (grid_of t)"
  by (auto simp: is_grid_def grid_of_def)

lemma clue_grid_of: "c \<in> set cells \<Longrightarrow> clue (grid_of t) c = t c"
  by (cases c) (simp add: clue_def grid_of_def in_cells_iff)

lemma grid_of_cong: "(\<forall>c\<in>set cells. t c = t' c) \<Longrightarrow> grid_of t = grid_of t'"
  by (simp add: grid_of_def in_cells_iff)

lemma grid_of_clue:
  assumes "is_grid r"
  shows "grid_of (clue r) = r"
proof -
  from assms have len: "length r = 9" and row: "\<And>i. i < 9 \<Longrightarrow> length (r ! i) = 9"
    by (simp_all add: is_grid_def)
  have "grid_of (clue r) = map (\<lambda>i. r ! i) [0..<9]"
    unfolding grid_of_def
  proof (rule map_cong[OF refl])
    fix i assume "i \<in> set [0..<9]"
    then have "length (r ! i) = 9" using row by simp
    then have "map (\<lambda>j. r ! i ! j) [0..<9] = r ! i" using map_nth[of "r ! i"] by simp
    then show "map (\<lambda>j. clue r (i, j)) [0..<9] = r ! i" by (simp add: clue_def)
  qed
  also have "\<dots> = r" using map_nth[of r] len by simp
  finally show ?thesis .
qed

lemma range_1_10_iff: "x |\<in>| range_1_10 \<longleftrightarrow> 1 \<le> x \<and> x \<le> 9"
proof -
  have "x |\<in>| range_1_10 \<longleftrightarrow> x \<in> set [1..9]"
    by (simp add: range_1_10_def upto.simps)
  then show ?thesis by simp
qed

lemma valid_grid_of:
  assumes "\<forall>c\<in>set cells. 1 \<le> t c \<and> t c \<le> 9"
    and "\<forall>c\<in>set cells. \<forall>n. n |\<in>| peers c \<longrightarrow> t c \<noteq> t n"
  shows "valid_grid (grid_of t)"
  unfolding valid_grid_def
proof (intro conjI ballI)
  show "is_grid (grid_of t)" by (rule is_grid_grid_of)
next
  fix u assume u: "u \<in> set units"
  note f = unit_facts[OF u]
  have m: "map (clue (grid_of t)) u = map t u"
    using f(3) by (intro map_cong[OF refl]) (auto simp: clue_grid_of)
  have "inj_on t (set u)"
  proof (rule inj_onI)
    fix c n assume c: "c \<in> set u" and n: "n \<in> set u" and eq: "t c = t n"
    show "c = n"
    proof (rule ccontr)
      assume "c \<noteq> n"
      then have "n |\<in>| peers c" using f(4)[OF c n] by blast
      with assms(2) c f(3) eq show False by blast
    qed
  qed
  with f(1) have "distinct (map t u)" by (simp add: distinct_map)
  moreover have "length (map t u) = 9" using f(2) by simp
  moreover have "set (map t u) \<subseteq> {1..9}" using assms(1) f(3) by auto
  ultimately show "each_once (map (clue (grid_of t)) u)"
    unfolding m by (rule each_once_of_distinct)
qed

lemma valid_grid_values:
  assumes "valid_grid r" and "c \<in> set cells"
  shows "1 \<le> clue r c \<and> clue r c \<le> 9"
    and "n |\<in>| peers c \<Longrightarrow> clue r c \<noteq> clue r n"
proof -
  have share: "\<And>n. n |\<in>| peers c \<Longrightarrow> (1 \<le> clue r c \<and> clue r c \<le> 9) \<and> clue r c \<noteq> clue r n"
  proof -
    fix n assume n: "n |\<in>| peers c"
    from peers_share_unit[OF assms(2) n] obtain u where
      u: "u \<in> set units" "c \<in> set u" "n \<in> set u" by blast
    note f = unit_facts[OF u(1)]
    from assms(1) u(1) have e: "each_once (map (clue r) u)" by (simp add: valid_grid_def)
    note d = each_once_distinct[OF e, simplified, OF f(2)]
    from d(2) u(2) have "clue r c \<in> {1..9}" by (metis image_eqI)
    moreover from d(1) have "inj_on (clue r) (set u)" by (simp add: distinct_map)
    with u(2,3) peers_neq[OF n] have "clue r c \<noteq> clue r n" by (auto dest: inj_onD)
    ultimately show "(1 \<le> clue r c \<and> clue r c \<le> 9) \<and> clue r c \<noteq> clue r n" by simp
  qed
  from fcard_peers[OF assms(2)] have "peers c \<noteq> {||}" by (auto simp: fcard_fempty)
  then obtain n0 where "n0 |\<in>| peers c" by auto
  from share[OF this] show "1 \<le> clue r c \<and> clue r c \<le> 9" by simp
  show "n |\<in>| peers c \<Longrightarrow> clue r c \<noteq> clue r n" using share by simp
qed

subsection \<open>Completions of a grid and solutions of its solver object\<close>

definition completion :: "grid \<Rightarrow> grid \<Rightarrow> bool" where
  "completion g r \<longleftrightarrow> valid_grid r \<and> keeps_clues g r"

lemma solution_completion:
  assumes "\<forall>c\<in>set cells. 0 \<le> clue g c \<and> clue g c \<le> 9"
    and "\<forall>c\<in>set cells. dom_at s c = initial_domain g c"
    and "solution_of s t"
  shows "completion g (grid_of t)"
proof -
  have v: "\<forall>c\<in>set cells. t c |\<in>| initial_domain g c"
    using assms(2,3) by (auto simp: solution_of_def)
  have "\<forall>c\<in>set cells. 1 \<le> t c \<and> t c \<le> 9"
  proof
    fix c assume c: "c \<in> set cells"
    with v have "t c |\<in>| initial_domain g c" by blast
    with assms(1) c show "1 \<le> t c \<and> t c \<le> 9"
      by (cases "clue g c = 0") (auto simp: initial_domain_def range_1_10_iff)
  qed
  moreover from assms(3) have "\<forall>c\<in>set cells. \<forall>n. n |\<in>| peers c \<longrightarrow> t c \<noteq> t n"
    unfolding solution_of_def by blast
  ultimately have "valid_grid (grid_of t)" by (rule valid_grid_of)
  moreover have "keeps_clues g (grid_of t)"
    unfolding keeps_clues_def
  proof (intro ballI impI)
    fix c assume c: "c \<in> set cells" and "clue g c \<noteq> 0"
    with v show "clue (grid_of t) c = clue g c"
      by (auto simp: clue_grid_of initial_domain_def)
  qed
  ultimately show ?thesis by (simp add: completion_def)
qed

lemma completion_solution:
  assumes "completion g r" and "\<forall>c\<in>set cells. dom_at s c = initial_domain g c"
  shows "solution_of s (clue r)"
  unfolding solution_of_def
proof (intro conjI ballI allI impI)
  fix c assume c: "c \<in> set cells"
  from assms(1) have v: "valid_grid r" and k: "keeps_clues g r" by (simp_all add: completion_def)
  show "clue r c |\<in>| dom_at s c"
  proof (cases "clue g c = 0")
    case True
    with valid_grid_values(1)[OF v c] assms(2) c show ?thesis
      by (simp add: initial_domain_def range_1_10_iff)
  next
    case False
    with k c have "clue r c = clue g c" by (simp add: keeps_clues_def)
    with False assms(2) c show ?thesis by (simp add: initial_domain_def)
  qed
next
  fix c n assume c: "c \<in> set cells" and n: "n |\<in>| peers c"
  from assms(1) have v: "valid_grid r" by (simp add: completion_def)
  from valid_grid_values(2)[OF v c n] show "clue r c \<noteq> clue r n" .
qed

section \<open>What \<open>solve_sudoku\<close> returns\<close>

lemma fcard_1_singleton:
  assumes "fcard D = 1"
  shows "\<exists>x. D = {|x|}"
proof -
  from assms have "card (fset D) = 1" by (simp add: fcard.rep_eq)
  then obtain x where "fset D = {x}" by (rule card_1_singletonE)
  then have "fset D = fset {|x|}" by simp
  then have "D = {|x|}" by (simp only: fset_inject)
  then show ?thesis by blast
qed

lemma values_of_singleton:
  assumes "enumerates it"
  shows "values_of it {|x|} = [x]"
proof -
  note v = enumerates_values[OF assms, of "{|x|}"]
  from v have "length (values_of it {|x|}) = 1"
    by (metis One_nat_def card.empty card.insert distinct_card empty_iff finite.emptyI
        bot_fset.rep_eq finsert.rep_eq)
  then obtain y where "values_of it {|x|} = [y]"
    by (cases "values_of it {|x|}") auto
  with v(1) show ?thesis by auto
qed

lemma get_solution_ok:
  assumes "enumerates it" and "csp_ok s" and "is_solved s"
  shows "\<exists>t. get_solution it s = Inr (grid_of t) \<and> (\<forall>c\<in>set cells. dom_at s c = {|t c|})"
proof -
  define t where "t c = hd (values_of it (dom_at s c))" for c
  have single: "dom_at s c = {|t c|}" if c: "c \<in> set cells" for c
  proof -
    from csp_ok_lookup[OF assms(2) c] have "(c, dom_at s c) \<in> set (domains s)"
      by (rule map_of_SomeD)
    with assms(3) have "fcard (dom_at s c) = 1" by (auto simp: is_solved_def list_all_iff)
    then obtain x where x: "dom_at s c = {|x|}" using fcard_1_singleton by blast
    then have "t c = x" by (simp add: t_def values_of_singleton[OF assms(1)])
    with x show ?thesis by simp
  qed
  have inner: "mapM (\<lambda>j. case getitem (domains s) (i, j) of
                            Inl e \<Rightarrow> Inl e
                          | Inr D \<Rightarrow> next_iter it D) [0..<9] = Inr (map (\<lambda>j. t (i, j)) [0..<9])"
    if i: "i < 9" for i
  proof (rule mapM_all, rule ballI)
    fix j assume "j \<in> set [0..<9]"
    with i have c: "(i, j) \<in> set cells" by (simp add: in_cells_iff)
    from single[OF c] have "next_iter it (dom_at s (i, j)) = Inr (t (i, j))"
      by (simp add: next_iter_def values_of_singleton[OF assms(1)])
    with getitem_ok[OF assms(2) c]
    show "(case getitem (domains s) (i, j) of Inl e \<Rightarrow> Inl e | Inr D \<Rightarrow> next_iter it D) =
            Inr (t (i, j))" by simp
  qed
  have "get_solution it s = Inr (map (\<lambda>i. map (\<lambda>j. t (i, j)) [0..<9]) [0..<9])"
    unfolding get_solution_def by (rule mapM_all) (simp add: inner)
  with single show ?thesis unfolding grid_of_def by blast
qed

definition assigned :: "assignment \<Rightarrow> cell \<Rightarrow> int" where
  "assigned a c = (case map_of a c of None \<Rightarrow> 0 | Some v \<Rightarrow> v)"

lemma solved_puzzle_grid_of: "solved_puzzle a = grid_of (assigned a)"
  by (simp add: solved_puzzle_def grid_of_def assigned_def)

lemma good_solution:
  assumes "good s a" and "length a = 81"
  shows "solution_of s (assigned a)"
proof -
  from assms(1) have ok: "asg_ok a" and con: "consistent_asg a" and dom: "in_domains s a"
    by (simp_all add: good_def)
  have val: "\<exists>v. map_of a c = Some v" if "c \<in> set cells" for c
    using asg_ok_complete[OF ok assms(2)] that by (intro map_of_keys) simp
  show ?thesis
    unfolding solution_of_def
  proof (intro conjI ballI allI impI)
    fix c assume "c \<in> set cells"
    from val[OF this] obtain v where v: "map_of a c = Some v" by blast
    with dom have "v |\<in>| dom_at s c" unfolding in_domains_def by blast
    with v show "assigned a c |\<in>| dom_at s c" by (simp add: assigned_def)
  next
    fix c n assume "c \<in> set cells" and n: "n |\<in>| peers c"
    from val[OF this(1)] obtain v where v: "map_of a c = Some v" by blast
    from val[OF peers_in_cells[OF n]] obtain w where w: "map_of a n = Some w" by blast
    from con n v have "map_of a n \<noteq> Some v" unfolding consistent_asg_def by blast
    with v w show "assigned a c \<noteq> assigned a n" by (simp add: assigned_def)
  qed
qed

lemma solution_family:
  assumes "solution_of s t"
  shows "supported_family (\<lambda>c. {|t c|})" and "within (\<lambda>c. {|t c|}) s"
proof -
  show "supported_family (\<lambda>c. {|t c|})"
    unfolding supported_family_def consistent_def
  proof (intro ballI allI impI)
    fix c n x assume "c \<in> set cells" and "n |\<in>| peers c" and "x |\<in>| {|t c|}"
    with assms have "t c \<noteq> t n" and "x = t c" unfolding solution_of_def by blast+
    then have "t n \<noteq> x" by simp
    then show "\<not> unsupported {|t n|} x" by (simp add: unsupported_iff)
  qed
  show "within (\<lambda>c. {|t c|}) s"
    using assms by (simp add: within_def solution_of_def)
qed

lemma solution_kept:
  assumes "ac3_kept s s1"
  shows "solution_of s1 t \<longleftrightarrow> solution_of s t"
proof
  assume "solution_of s1 t"
  moreover from assms have "\<forall>c. dom_at s1 c |\<subseteq>| dom_at s c" unfolding ac3_kept_def by blast
  ultimately show "solution_of s t" unfolding solution_of_def by blast
next
  assume t: "solution_of s t"
  from assms solution_family[OF t] have "within (\<lambda>c. {|t c|}) s1"
    unfolding ac3_kept_def by blast
  with t show "solution_of s1 t" by (simp add: within_def solution_of_def)
qed

lemma arc_consistent_singletons:
  assumes "arc_consistent s" and "\<forall>c\<in>set cells. dom_at s c = {|t c|}"
  shows "solution_of s t"
  unfolding solution_of_def
proof (intro conjI ballI allI impI)
  fix c assume "c \<in> set cells"
  with assms(2) show "t c |\<in>| dom_at s c" by simp
next
  fix c n assume c: "c \<in> set cells" and n: "n |\<in>| peers c"
  with assms(1) have "consistent (dom_at s c) (dom_at s n)" unfolding arc_consistent_def by blast
  with assms(2) c peers_in_cells[OF n] have "consistent {|t c|} {|t n|}" by simp
  then show "t c \<noteq> t n" by (auto simp: consistent_def unsupported_iff)
qed

lemma no_solution_empty:
  assumes "\<not> nonempty s"
  shows "\<not> solution_of s t"
  using assms unfolding nonempty_def solution_of_def by auto

text \<open>\<open>solve_sudoku\<close> on a 9x9 grid returns, without an exception. It returns a grid exactly
  when the constraint problem of the grid has a solution, and then the grid is one.\<close>

lemma solve_sudoku_ok:
  assumes "enumerates it" and "is_grid g"
  shows "\<exists>s b ql s1 res.
           SudokuCSP g = Inr s \<and> csp_ok s \<and> (\<forall>c\<in>set cells. dom_at s c = initial_domain g c) \<and>
           ac3 it s = Inr ((b, ql), s1, if b then [] else [''Puzzle has no solution'']) \<and>
           ac3_kept s s1 \<and>
           solve_sudoku it g =
             Some (Inr ((res, ql),
                        if \<not> b then [''Puzzle has no solution'']
                        else if is_solved s1 then [msg_solved] else [msg_backtrack])) \<and>
           (case res of
              None \<Rightarrow> \<forall>t. \<not> solution_of s t
            | Some r \<Rightarrow> \<exists>t. r = grid_of t \<and> solution_of s t)"
proof -
  from SudokuCSP_ok[OF assms(2)] obtain s where
    s: "SudokuCSP g = Inr s" "csp_ok s" "\<forall>c\<in>set cells. dom_at s c = initial_domain g c" by blast
  have ne: "nonempty s" using s(3) by (simp add: nonempty_def initial_domain_nonempty)
  from ac3_ok[OF assms(1) s(2)] obtain b ql s1 where
    r: "ac3 it s = Inr ((b, ql), s1, if b then [] else [''Puzzle has no solution''])"
    and kept: "ac3_kept s s1" and ac: "b \<longrightarrow> arc_consistent s1"
    and n1: "nonempty s \<longrightarrow> (b \<longleftrightarrow> nonempty s1)" by blast
  from kept have ok1: "csp_ok s1" by (simp add: ac3_kept_def)
  note sk = solution_kept[OF kept]
  let ?out = "if \<not> b then [''Puzzle has no solution'']
              else if is_solved s1 then [msg_solved] else [msg_backtrack]"
  have "\<exists>res. solve_sudoku it g = Some (Inr ((res, ql), ?out)) \<and>
          (case res of
             None \<Rightarrow> \<forall>t. \<not> solution_of s t
           | Some r \<Rightarrow> \<exists>t. r = grid_of t \<and> solution_of s t)"
  proof (cases b)
    case False
    with r s(1) have "solve_sudoku it g = Some (Inr ((None, ql), ?out))"
      by (simp add: solve_sudoku_def)
    moreover from False n1 ne have "\<not> nonempty s1" by simp
    then have "\<forall>t. \<not> solution_of s t" using no_solution_empty sk by blast
    ultimately show ?thesis by (intro exI[of _ None]) simp
  next
    case True
    show ?thesis
    proof (cases "is_solved s1")
      case solved: True
      from get_solution_ok[OF assms(1) ok1 solved] obtain t where
        t: "get_solution it s1 = Inr (grid_of t)" "\<forall>c\<in>set cells. dom_at s1 c = {|t c|}" by blast
      from True r s(1) solved t(1)
      have "solve_sudoku it g = Some (Inr ((Some (grid_of t), ql), ?out))"
        by (simp add: solve_sudoku_def)
      moreover from arc_consistent_singletons[OF _ t(2)] ac True sk have "solution_of s t" by simp
      ultimately show ?thesis by (intro exI[of _ "Some (grid_of t)"]) auto
    next
      case unsolved: False
      from backtrack_entry[OF assms(1) ok1 good_empty, of 0 "[]"]
      obtain found a1 ev where
        bt: "backtrack_from it (At_entry, 0) (s1, [], []) = Some (Inr (found, s1, a1, [] @ ev))"
        and res: "if found then good s1 a1 \<and> length a1 = 81 \<and>
                       (\<forall>c v. map_of [] c = Some v \<longrightarrow> map_of a1 c = Some v)
                  else a1 = [] \<and> (\<forall>t. solution_of s1 t \<and> extends [] t \<longrightarrow> \<not> True)"
        unfolding search_result_def by blast
      show ?thesis
      proof (cases found)
        case found: True
        with res have g1: "good s1 a1" and l: "length a1 = 81" by simp_all
        from l have "a1 \<noteq> []" by auto
        with True r s(1) unsolved bt found
        have "solve_sudoku it g = Some (Inr ((Some (solved_puzzle a1), ql), ?out))"
          by (simp add: solve_sudoku_def backtracking_search_def backtrack_def)
        moreover from good_solution[OF g1 l] sk have "solution_of s (assigned a1)" by simp
        ultimately show ?thesis
          by (intro exI[of _ "Some (solved_puzzle a1)"]) (auto simp: solved_puzzle_grid_of)
      next
        case nf: False
        with True r s(1) unsolved bt
        have "solve_sudoku it g = Some (Inr ((None, ql), ?out))"
          by (simp add: solve_sudoku_def backtracking_search_def backtrack_def)
        moreover from nf res have "\<forall>t. \<not> solution_of s1 t" by (simp add: extends_def)
        with sk have "\<forall>t. \<not> solution_of s t" by simp
        ultimately show ?thesis by (intro exI[of _ None]) simp
      qed
    qed
  qed
  with s r kept show ?thesis by blast
qed


subsection \<open>Rows, columns and blocks of a grid\<close>

lemma row_values:
  assumes "is_grid r" and "i < 9"
  shows "map (clue r) (map (\<lambda>j. (i, j)) [0..<9]) = r ! i"
proof -
  from assms have "length (r ! i) = 9" by (simp add: is_grid_def)
  then show ?thesis using map_nth[of "r ! i"] by (simp add: clue_def comp_def)
qed

lemma column_values:
  assumes "is_grid r"
  shows "map (clue r) (map (\<lambda>i. (i, j)) [0..<9]) = map (\<lambda>row. row ! j) r"
proof -
  from assms have "length r = 9" by (simp add: is_grid_def)
  then have "map (\<lambda>row. row ! j) r = map (\<lambda>row. row ! j) (map (\<lambda>i. r ! i) [0..<9])"
    using map_nth[of r] by simp
  then show ?thesis by (simp add: clue_def comp_def)
qed

lemma block_values:
  "map (clue r) (List.product is js) = concat (map (\<lambda>i. map (\<lambda>j. r ! i ! j) js) is)"
  by (induction "is") (simp_all add: clue_def comp_def)

lemma valid_grid_iff:
  "valid_grid r \<longleftrightarrow>
     is_grid r \<and> (\<forall>i<9. each_once (r ! i)) \<and> (\<forall>j<9. each_once (map (\<lambda>row. row ! j) r)) \<and>
     (\<forall>bi<3. \<forall>bj<3. each_once (concat (map (\<lambda>i. map (\<lambda>j. r ! i ! j) [3 * bj..<3 * bj + 3])
                                            [3 * bi..<3 * bi + 3])))"
proof (cases "is_grid r")
  case False
  then show ?thesis by (simp add: valid_grid_def)
next
  case True
  have "(\<forall>u\<in>set rows. each_once (map (clue r) u)) \<longleftrightarrow> (\<forall>i<9. each_once (r ! i))"
    using row_values[OF True] by (auto simp: rows_def)
  moreover have "(\<forall>u\<in>set columns. each_once (map (clue r) u)) \<longleftrightarrow>
                 (\<forall>j<9. each_once (map (\<lambda>row. row ! j) r))"
    using column_values[OF True] by (auto simp: columns_def)
  moreover have "(\<forall>u\<in>set blocks. each_once (map (clue r) u)) \<longleftrightarrow>
     (\<forall>bi<3. \<forall>bj<3. each_once (concat (map (\<lambda>i. map (\<lambda>j. r ! i ! j) [3 * bj..<3 * bj + 3])
                                            [3 * bi..<3 * bi + 3])))"
    unfolding blocks_def by (auto simp: block_values)
  ultimately show ?thesis using True unfolding valid_grid_def units_def by auto
qed

text \<open>The entries of an input grid are 0 for a blank or a clue from 1 to 9.\<close>

definition in_range :: "grid \<Rightarrow> bool" where
  "in_range g \<longleftrightarrow> (\<forall>row\<in>set g. \<forall>v\<in>set row. 0 \<le> v \<and> v \<le> 9)"

lemma in_range_clue:
  assumes "is_grid g" and "in_range g" and "c \<in> set cells"
  shows "0 \<le> clue g c \<and> clue g c \<le> 9"
proof -
  obtain i j where c: "c = (i, j)" by (cases c)
  with assms(3) have ij: "i < 9" "j < 9" by (simp_all add: in_cells_iff)
  from assms(1) ij have "g ! i \<in> set g" by (simp add: is_grid_def)
  moreover from this assms(1) ij have "g ! i ! j \<in> set (g ! i)" by (simp add: is_grid_def)
  ultimately show ?thesis using assms(2) c unfolding in_range_def clue_def by auto
qed

lemma solve_sudoku_completion:
  assumes "enumerates it" and "is_grid g" and "\<forall>c\<in>set cells. 0 \<le> clue g c \<and> clue g c \<le> 9"
    and "solve_sudoku it g = Some (Inr ((Some r, ql), out))"
  shows "completion g r"
proof -
  from solve_sudoku_ok[OF assms(1,2)] assms(4) obtain s t where
    "\<forall>c\<in>set cells. dom_at s c = initial_domain g c" and "r = grid_of t" and "solution_of s t"
    by auto
  with solution_completion[OF assms(3)] show ?thesis by blast
qed

lemma solve_sudoku_finds:
  assumes "enumerates it" and "is_grid g" and "completion g r0"
  shows "\<exists>r ql out. solve_sudoku it g = Some (Inr ((Some r, ql), out))"
proof -
  from solve_sudoku_ok[OF assms(1,2)] obtain s res ql out where
    d: "\<forall>c\<in>set cells. dom_at s c = initial_domain g c"
    and r: "solve_sudoku it g = Some (Inr ((res, ql), out))"
    and c: "case res of None \<Rightarrow> \<forall>t. \<not> solution_of s t
            | Some r \<Rightarrow> \<exists>t. r = grid_of t \<and> solution_of s t"
    by blast
  from completion_solution[OF assms(3) d] c obtain r where "res = Some r"
    by (cases res) auto
  with r show ?thesis by blast
qed

text \<open>
  Claim C1. The input is a 9x9 grid whose entries are 0 (blank) or a clue from 1 to 9. When
  \<open>solve_sudoku\<close> returns a grid, the grid is 9x9, each of its rows, each of its columns and
  each of its 3x3 blocks holds every value from 1 to 9 exactly once, and every cell that held
  a clue in the input holds the same value in the result.
\<close>

theorem solve_sudoku_sound:
  assumes "enumerates it" and "is_grid g" and "in_range g"
    and "solve_sudoku it g = Some (Inr ((Some r, ql), out))"
  shows "length r = 9 \<and> (\<forall>row\<in>set r. length row = 9)
       \<and> (\<forall>i<9. each_once (r ! i))
       \<and> (\<forall>j<9. each_once (map (\<lambda>row. row ! j) r))
       \<and> (\<forall>bi<3. \<forall>bj<3. each_once (concat (map (\<lambda>i. map (\<lambda>j. r ! i ! j) [3 * bj..<3 * bj + 3])
                                              [3 * bi..<3 * bi + 3])))
       \<and> (\<forall>i<9. \<forall>j<9. g ! i ! j \<noteq> 0 \<longrightarrow> r ! i ! j = g ! i ! j)"
proof -
  from in_range_clue[OF assms(2,3)]
  have "\<forall>c\<in>set cells. 0 \<le> clue g c \<and> clue g c \<le> 9" by blast
  from solve_sudoku_completion[OF assms(1,2) this assms(4)]
  have v: "valid_grid r" and k: "keeps_clues g r" by (simp_all add: completion_def)
  have "\<forall>i<9. \<forall>j<9. g ! i ! j \<noteq> 0 \<longrightarrow> r ! i ! j = g ! i ! j"
  proof (intro allI impI)
    fix i j :: nat assume "i < 9" and "j < 9" and "g ! i ! j \<noteq> 0"
    with k show "r ! i ! j = g ! i ! j"
      unfolding keeps_clues_def clue_def by (auto simp: in_cells_iff dest!: bspec[of _ _ "(i, j)"])
  qed
  with v show ?thesis unfolding valid_grid_iff is_grid_def by blast
qed

text \<open>
  Claim C2. When a 9x9 grid has exactly one completion (a grid whose rows, columns and blocks
  each hold 1 to 9 once and which keeps the clues), \<open>solve_sudoku\<close> returns that completion.
\<close>

theorem unique_completion_found:
  assumes "enumerates it" and "is_grid g"
    and "completion g r" and "\<forall>r'. completion g r' \<longrightarrow> r' = r"
  shows "\<exists>ql out. solve_sudoku it g = Some (Inr ((Some r, ql), out))"
proof -
  from solve_sudoku_finds[OF assms(1,2,3)] obtain r1 ql out where
    r1: "solve_sudoku it g = Some (Inr ((Some r1, ql), out))" by blast
  from assms(3) have v: "valid_grid r" and k: "keeps_clues g r" by (simp_all add: completion_def)
  have "\<forall>c\<in>set cells. 0 \<le> clue g c \<and> clue g c \<le> 9"
  proof
    fix c assume c: "c \<in> set cells"
    show "0 \<le> clue g c \<and> clue g c \<le> 9"
    proof (cases "clue g c = 0")
      case True
      then show ?thesis by simp
    next
      case False
      with k c have "clue g c = clue r c" by (simp add: keeps_clues_def)
      with valid_grid_values(1)[OF v c] show ?thesis by simp
    qed
  qed
  from solve_sudoku_completion[OF assms(1,2) this r1] assms(4) have "r1 = r" by blast
  with r1 show ?thesis by blast
qed

section \<open>Concrete grids\<close>

definition grid_full :: grid where
  "grid_full =
     [[5, 3, 4, 6, 7, 8, 9, 1, 2],
      [6, 7, 2, 1, 9, 5, 3, 4, 8],
      [1, 9, 8, 3, 4, 2, 5, 6, 7],
      [8, 5, 9, 7, 6, 1, 4, 2, 3],
      [4, 2, 6, 8, 5, 3, 7, 9, 1],
      [7, 1, 3, 9, 2, 4, 8, 5, 6],
      [9, 6, 1, 5, 3, 7, 2, 8, 4],
      [2, 8, 7, 4, 1, 9, 6, 3, 5],
      [3, 4, 5, 2, 8, 6, 1, 7, 9]]"

text \<open>The same grid with its first cell blank.\<close>

definition grid_one_blank :: grid where
  "grid_one_blank =
     [[0, 3, 4, 6, 7, 8, 9, 1, 2],
      [6, 7, 2, 1, 9, 5, 3, 4, 8],
      [1, 9, 8, 3, 4, 2, 5, 6, 7],
      [8, 5, 9, 7, 6, 1, 4, 2, 3],
      [4, 2, 6, 8, 5, 3, 7, 9, 1],
      [7, 1, 3, 9, 2, 4, 8, 5, 6],
      [9, 6, 1, 5, 3, 7, 2, 8, 4],
      [2, 8, 7, 4, 1, 9, 6, 3, 5],
      [3, 4, 5, 2, 8, 6, 1, 7, 9]]"

lemma is_grid_full: "is_grid grid_full"
  by (simp add: is_grid_def grid_full_def)

lemma is_grid_one_blank: "is_grid grid_one_blank"
  by (simp add: is_grid_def grid_one_blank_def)

lemma valid_grid_full: "valid_grid grid_full"
  by code_simp

lemma grid_one_blank_eq: "grid_one_blank = (0 # tl (hd grid_full)) # tl grid_full"
  by (simp add: grid_one_blank_def grid_full_def)

lemma clue_one_blank:
  assumes "c \<in> set cells"
  shows "clue grid_one_blank c = (if c = (0, 0) then 0 else clue grid_full c)"
proof -
  obtain i j where c: "c = (i, j)" by (cases c)
  have h: "grid_full = hd grid_full # tl grid_full" "hd grid_full = hd (hd grid_full) # tl (hd grid_full)"
    by (simp_all add: grid_full_def)
  show ?thesis
  proof (cases i)
    case 0
    show ?thesis
    proof (cases j)
      case 0
      with \<open>i = 0\<close> c show ?thesis by (simp add: clue_def grid_one_blank_eq)
    next
      case (Suc j')
      have "clue grid_full (0, Suc j') = tl (hd grid_full) ! j'"
        unfolding clue_def by (subst h(1), simp, subst h(2), simp)
      with Suc \<open>i = 0\<close> c show ?thesis by (simp add: clue_def grid_one_blank_eq)
    qed
  next
    case (Suc i')
    have "grid_full ! Suc i' = tl grid_full ! i'" by (subst h(1)) simp
    with Suc c show ?thesis by (simp add: clue_def grid_one_blank_eq)
  qed
qed

lemma clue_full_range: "c \<in> set cells \<Longrightarrow> 1 \<le> clue grid_full c \<and> clue grid_full c \<le> 9"
  by (rule valid_grid_values(1)[OF valid_grid_full])

lemma completion_one_blank: "completion grid_one_blank grid_full"
  unfolding completion_def keeps_clues_def
  by (auto simp: valid_grid_full clue_one_blank)

lemma one_blank_unique:
  assumes "completion grid_one_blank r"
  shows "r = grid_full"
proof -
  from assms have v: "valid_grid r" and k: "keeps_clues grid_one_blank r"
    by (simp_all add: completion_def)
  have c00: "(0, 0) \<in> set cells" by (simp add: in_cells_iff)
  have other: "clue r c = clue grid_full c" if c: "c \<in> set cells" and n: "c \<noteq> (0, 0)" for c
  proof -
    from clue_full_range[OF c] n c have "clue grid_one_blank c \<noteq> 0" by (simp add: clue_one_blank)
    with k c n show ?thesis by (simp add: keeps_clues_def clue_one_blank)
  qed
  have row: "clue r (0, 0) \<noteq> clue grid_full (0, j)" if j: "0 < j" "j < 9" for j
  proof -
    from j have p: "(0, j) |\<in>| peers (0, 0)" by (simp add: peers_iff related_def in_cells_iff)
    from j have "clue r (0, j) = clue grid_full (0, j)" by (intro other) (simp_all add: in_cells_iff)
    with valid_grid_values(2)[OF v c00 p] show ?thesis by simp
  qed
  have vals: "clue grid_full (0, 1) = 3" "clue grid_full (0, 2) = 4" "clue grid_full (0, 3) = 6"
    "clue grid_full (0, 4) = 7" "clue grid_full (0, 5) = 8" "clue grid_full (0, 6) = 9"
    "clue grid_full (0, 7) = 1" "clue grid_full (0, 8) = 2" "clue grid_full (0, 0) = 5"
    by (simp_all add: clue_def grid_full_def)
  from row[of 1] row[of 2] row[of 3] row[of 4] row[of 5] row[of 6] row[of 7] row[of 8]
    valid_grid_values(1)[OF v c00]
  have "clue r (0, 0) = 5" unfolding vals by simp
  with other vals(9) have "\<forall>c\<in>set cells. clue r c = clue grid_full c" by metis
  then have "grid_of (clue r) = grid_of (clue grid_full)" by (rule grid_of_cong)
  with v show ?thesis by (simp add: grid_of_clue valid_grid_def is_grid_full)
qed

theorem unique_completion_found_witness:
  "\<exists>ql out. enumerates ascending \<and> is_grid grid_one_blank \<and>
     completion grid_one_blank grid_full \<and>
     solve_sudoku ascending grid_one_blank = Some (Inr ((Some grid_full, ql), out))"
  using unique_completion_found[OF enumerates_ascending is_grid_one_blank completion_one_blank]
    one_blank_unique enumerates_ascending is_grid_one_blank completion_one_blank
  by blast

lemma in_range_one_clue: "in_range grid_one_clue"
  by (auto simp: in_range_def grid_one_clue_def)

lemma completion_one_clue: "completion grid_one_clue grid_full"
proof -
  have "clue grid_full (0, 0) = 5" by (simp add: clue_def grid_full_def)
  then show ?thesis
    unfolding completion_def keeps_clues_def by (auto simp: valid_grid_full clue_one_clue)
qed

lemma is_solved_fcard:
  assumes "csp_ok s" and "is_solved s" and "c \<in> set cells"
  shows "fcard (dom_at s c) = 1"
proof -
  from csp_ok_lookup[OF assms(1,3)] have "(c, dom_at s c) \<in> set (domains s)"
    by (rule map_of_SomeD)
  with assms(2) show ?thesis by (auto simp: is_solved_def list_all_iff)
qed

text \<open>On the grid with one clue \<open>ac3\<close> leaves more than one value in some cell, and the search
  finds a solution.\<close>

lemma one_clue_solved:
  assumes "enumerates it"
  shows "\<exists>r ql. solve_sudoku it grid_one_clue = Some (Inr ((Some r, ql), [msg_backtrack]))"
proof -
  from solve_sudoku_ok[OF assms is_grid_one_clue] obtain s b ql s1 res where
    s: "SudokuCSP grid_one_clue = Inr s" "csp_ok s"
    and d: "\<forall>c\<in>set cells. dom_at s c = initial_domain grid_one_clue c"
    and r: "ac3 it s = Inr ((b, ql), s1, if b then [] else [''Puzzle has no solution''])"
    and kept: "ac3_kept s s1"
    and out: "solve_sudoku it grid_one_clue =
                Some (Inr ((res, ql),
                           if \<not> b then [''Puzzle has no solution'']
                           else if is_solved s1 then [msg_solved] else [msg_backtrack]))"
    and c: "case res of None \<Rightarrow> \<forall>t. \<not> solution_of s t
            | Some r \<Rightarrow> \<exists>t. r = grid_of t \<and> solution_of s t"
    by blast
  from completion_solution[OF completion_one_clue d] c obtain r1 where res: "res = Some r1"
    by (cases res) auto
  have ne: "nonempty s" using d by (simp add: nonempty_def initial_domain_nonempty)
  have w: "within family_one_clue s"
    unfolding within_def
  proof
    fix c assume c: "c \<in> set cells"
    have c00: "(0, 0) \<in> set cells" by (simp add: in_cells_iff)
    from d c have "dom_at s c = initial_domain grid_one_clue c" by blast
    then have "dom_at s c = (if c = (0, 0) then {|5|} else range_1_10)"
      using clue_one_clue[OF c00] by (simp add: initial_domain_def clue_one_clue[OF c])
    then show "family_one_clue c |\<subseteq>| dom_at s c"
      by (auto simp: family_one_clue_def)
  qed
  from ac3_succeeds[OF assms s(2) ne supported_family_one_clue w] family_one_clue_nonempty r
  have b: b and w1: "within family_one_clue s1" by auto
  have c01: "(0, 1) \<in> set cells" by (simp add: in_cells_iff)
  have "\<not> is_solved s1"
  proof
    assume "is_solved s1"
    with kept have "fcard (dom_at s1 (0, 1)) = 1"
      by (intro is_solved_fcard c01) (simp_all add: ac3_kept_def)
    then obtain x where x: "dom_at s1 (0, 1) = {|x|}" using fcard_1_singleton by blast
    from w1 c01 have "family_one_clue (0, 1) |\<subseteq>| dom_at s1 (0, 1)" by (simp add: within_def)
    with family_one_clue_has[of "(0, 1)"] x have "1 = x" "2 = x" by auto
    then show False by simp
  qed
  with out b res show ?thesis by simp
qed

theorem solve_sudoku_sound_witness:
  "\<exists>r ql. enumerates ascending \<and> is_grid grid_one_clue \<and> in_range grid_one_clue \<and>
     solve_sudoku ascending grid_one_clue = Some (Inr ((Some r, ql), [msg_backtrack])) \<and>
     length r = 9 \<and> r ! 0 ! 0 = 5 \<and> each_once (r ! 0) \<and> each_once (map (\<lambda>row. row ! 0) r) \<and>
     each_once (concat (map (\<lambda>i. map (\<lambda>j. r ! i ! j) [0..<3]) [0..<3]))"
proof -
  note e = enumerates_ascending
  from one_clue_solved[OF e] obtain r ql where
    r: "solve_sudoku ascending grid_one_clue = Some (Inr ((Some r, ql), [msg_backtrack]))"
    by blast
  note th = solve_sudoku_sound[OF e is_grid_one_clue in_range_one_clue r]
  note len = th[THEN conjunct1]
  note row = th[THEN conjunct2, THEN conjunct2, THEN conjunct1, rule_format, of 0]
  note col = th[THEN conjunct2, THEN conjunct2, THEN conjunct2, THEN conjunct1, rule_format, of 0]
  note blk = th[THEN conjunct2, THEN conjunct2, THEN conjunct2, THEN conjunct2, THEN conjunct1,
      rule_format, of 0 0]
  note kept = th[THEN conjunct2, THEN conjunct2, THEN conjunct2, THEN conjunct2, THEN conjunct2,
      rule_format, of 0 0]
  have g: "grid_one_clue ! 0 ! 0 = 5" by (simp add: grid_one_clue_def)
  have "r ! 0 ! 0 = 5" using kept g by simp
  moreover have "each_once (r ! 0)" using row by simp
  moreover have "each_once (map (\<lambda>row. row ! 0) r)" using col by simp
  moreover have "each_once (concat (map (\<lambda>i. map (\<lambda>j. r ! i ! j) [0..<3]) [0..<3]))"
    using blk by simp
  ultimately show ?thesis using r len e is_grid_one_clue in_range_one_clue
    by (intro exI[of _ r] exI[of _ ql]) (simp only: simp_thms)
qed

section \<open>Claims about the search\<close>

lemma one_clue_search:
  assumes "enumerates it"
  shows "\<exists>s a1 lg1. SudokuCSP grid_one_clue = Inr s \<and> csp_ok s \<and>
           backtrack it 0 (s, [], []) = Some (Inr (True, s, a1, lg1)) \<and> length a1 = 81"
proof -
  from SudokuCSP_ok[OF is_grid_one_clue] obtain s where
    s: "SudokuCSP grid_one_clue = Inr s" "csp_ok s"
    and d: "\<forall>c\<in>set cells. dom_at s c = initial_domain grid_one_clue c" by blast
  note sol = completion_solution[OF completion_one_clue d]
  from backtrack_entry[OF assms s(2) good_empty, of 0 "[]"]
  obtain found a1 ev where
    bt: "backtrack_from it (At_entry, 0) (s, [], []) = Some (Inr (found, s, a1, [] @ ev))"
    and res: "if found then good s a1 \<and> length a1 = 81 \<and>
                   (\<forall>c v. map_of [] c = Some v \<longrightarrow> map_of a1 c = Some v)
              else a1 = [] \<and> (\<forall>t. solution_of s t \<and> extends [] t \<longrightarrow> \<not> True)"
    unfolding search_result_def by blast
  have found
  proof (rule ccontr)
    assume "\<not> found"
    with res have "\<forall>t. solution_of s t \<and> extends [] t \<longrightarrow> \<not> True" by simp
    then have "\<not> solution_of s (clue grid_full)" by (simp add: extends_def)
    with sol show False by simp
  qed
  with res have l: "length a1 = 81" by simp
  from bt \<open>found\<close> have "backtrack it 0 (s, [], []) = Some (Inr (True, s, a1, ev))"
    by (simp add: backtrack_def)
  with s l show ?thesis by blast
qed

lemma duplicate_search:
  assumes "enumerates it"
  shows "\<exists>s lg1. SudokuCSP grid_duplicate = Inr s \<and> csp_ok s \<and>
           backtrack it 0 (s, [], []) = Some (Inr (False, s, [], lg1))"
proof -
  from SudokuCSP_ok[OF is_grid_duplicate] obtain s where
    s: "SudokuCSP grid_duplicate = Inr s" "csp_ok s"
    and d: "\<forall>c\<in>set cells. dom_at s c = initial_domain grid_duplicate c" by blast
  have c: "(0, 0) \<in> set cells" "(0, 1) \<in> set cells" by (simp_all add: in_cells_iff)
  have "clue grid_duplicate (0, 0) = 5" "clue grid_duplicate (0, 1) = 5"
    by (simp_all add: clue_def grid_duplicate_def)
  with d c have d5: "dom_at s (0, 0) = {|5|}" "dom_at s (0, 1) = {|5|}"
    by (simp_all add: initial_domain_def)
  have p: "(0, 1) |\<in>| peers (0, 0)" by (simp add: peers_iff related_def in_cells_iff)
  have none: "\<not> solution_of s t" for t
  proof
    assume t: "solution_of s t"
    from t c have "t (0, 0) |\<in>| dom_at s (0, 0)" "t (0, 1) |\<in>| dom_at s (0, 1)"
      unfolding solution_of_def by blast+
    with d5 have "t (0, 0) = 5" "t (0, 1) = 5" by simp_all
    moreover from t c(1) p have "t (0, 0) \<noteq> t (0, 1)" unfolding solution_of_def by blast
    ultimately show False by simp
  qed
  from backtrack_entry[OF assms s(2) good_empty, of 0 "[]"]
  obtain found a1 ev where
    bt: "backtrack_from it (At_entry, 0) (s, [], []) = Some (Inr (found, s, a1, [] @ ev))"
    and res: "if found then good s a1 \<and> length a1 = 81 \<and>
                   (\<forall>c v. map_of [] c = Some v \<longrightarrow> map_of a1 c = Some v)
              else a1 = [] \<and> (\<forall>t. solution_of s t \<and> extends [] t \<longrightarrow> \<not> True)"
    unfolding search_result_def by blast
  have nf: "\<not> found"
  proof
    assume found
    with res have "good s a1" "length a1 = 81" by simp_all
    from good_solution[OF this] none show False by blast
  qed
  with res have "a1 = []" by simp
  with bt nf have "backtrack it 0 (s, [], []) = Some (Inr (False, s, [], ev))"
    by (simp add: backtrack_def)
  with s show ?thesis by blast
qed

lemma solution_nonzero:
  assumes "\<forall>c\<in>set cells. dom_at s c = initial_domain g c" and "solution_of s t"
    and "c \<in> set cells"
  shows "t c \<noteq> 0"
proof -
  from assms have "t c |\<in>| initial_domain g c" unfolding solution_of_def by auto
  then show ?thesis by (auto simp: initial_domain_def range_1_10_iff split: if_splits)
qed

text \<open>
  Claim C8. A call of \<open>backtrack\<close> made by the search (on a solver object and a consistent
  partial assignment) returns without an exception: either the assignment, which then has 81
  entries, one for every cell, or \<open>None\<close>, and then the dictionary is as it was at the call.
  When the values of the chosen cell are exhausted the loop ends and the result is \<open>None\<close>.
  \<open>solve_sudoku\<close> on a 9x9 grid returns \<open>None\<close> or a 9x9 grid with no blank cell.
\<close>

theorem backtrack_complete_or_none:
  assumes "enumerates it" and "csp_ok s" and "good s a"
  shows "(\<exists>found a1 lg1.
            backtrack it d (s, a, lg) = Some (Inr (found, s, a1, lg1)) \<and>
            (found \<longleftrightarrow> length a1 = 81) \<and>
            (found \<longrightarrow> set (map fst a1) = set cells) \<and>
            (\<not> found \<longrightarrow> a1 = a))
       \<and> backtrack_from it (In_loop var [], d) (s, a, lg) = Some (Inr (False, s, a, lg))
       \<and> (\<forall>g. is_grid g \<longrightarrow>
            (\<exists>res ql out. solve_sudoku it g = Some (Inr ((res, ql), out)) \<and>
               (\<forall>r. res = Some r \<longrightarrow>
                  length r = 9 \<and> (\<forall>i<9. length (r ! i) = 9 \<and> (\<forall>j<9. r ! i ! j \<noteq> 0)))))"
proof (intro conjI allI impI)
  from backtrack_entry[OF assms, of d lg]
  obtain found a1 ev where
    bt: "backtrack_from it (At_entry, d) (s, a, lg) = Some (Inr (found, s, a1, lg @ ev))"
    and res: "if found then good s a1 \<and> length a1 = 81 \<and>
                   (\<forall>c v. map_of a c = Some v \<longrightarrow> map_of a1 c = Some v)
              else a1 = a \<and> (\<forall>t. solution_of s t \<and> extends a t \<longrightarrow> \<not> True)"
    unfolding search_result_def by blast
  have "found \<longleftrightarrow> length a1 = 81"
  proof
    assume found with res show "length a1 = 81" by simp
  next
    assume l: "length a1 = 81"
    show found
    proof (rule ccontr)
      assume nf: "\<not> found"
      with res l have "length a = 81" by simp
      from backtrack_complete[OF this, of it d s lg] bt nf show False by simp
    qed
  qed
  moreover have "found \<longrightarrow> set (map fst a1) = set cells"
  proof
    assume found
    with res have "asg_ok a1" "length a1 = 81" by (simp_all add: good_def)
    then show "set (map fst a1) = set cells" by (rule asg_ok_complete)
  qed
  moreover have "\<not> found \<longrightarrow> a1 = a" using res by simp
  ultimately show "\<exists>found a1 lg1.
            backtrack it d (s, a, lg) = Some (Inr (found, s, a1, lg1)) \<and>
            (found \<longleftrightarrow> length a1 = 81) \<and>
            (found \<longrightarrow> set (map fst a1) = set cells) \<and>
            (\<not> found \<longrightarrow> a1 = a)"
    using bt unfolding backtrack_def by blast
next
  show "backtrack_from it (In_loop var [], d) (s, a, lg) = Some (Inr (False, s, a, lg))"
    by (rule backtrack_exhausted)
next
  fix g assume g: "is_grid g"
  from solve_sudoku_ok[OF assms(1) g] obtain s0 res ql out where
    d: "\<forall>c\<in>set cells. dom_at s0 c = initial_domain g c"
    and r: "solve_sudoku it g = Some (Inr ((res, ql), out))"
    and c: "case res of None \<Rightarrow> \<forall>t. \<not> solution_of s0 t
            | Some r \<Rightarrow> \<exists>t. r = grid_of t \<and> solution_of s0 t"
    by blast
  have "\<forall>r. res = Some r \<longrightarrow>
          length r = 9 \<and> (\<forall>i<9. length (r ! i) = 9 \<and> (\<forall>j<9. r ! i ! j \<noteq> 0))"
  proof (intro allI impI)
    fix r assume "res = Some r"
    with c obtain t where t: "r = grid_of t" "solution_of s0 t" by auto
    have "r ! i ! j \<noteq> 0" if "i < 9" "j < 9" for i j
    proof -
      from that have ij: "(i, j) \<in> set cells" by (simp add: in_cells_iff)
      from solution_nonzero[OF d t(2) ij] clue_grid_of[OF ij, of t] t(1)
      show ?thesis by (simp add: clue_def)
    qed
    moreover have "is_grid r" using t(1) by (simp add: is_grid_grid_of)
    ultimately show "length r = 9 \<and> (\<forall>i<9. length (r ! i) = 9 \<and> (\<forall>j<9. r ! i ! j \<noteq> 0))"
      by (simp add: is_grid_def)
  qed
  with r show "\<exists>res ql out. solve_sudoku it g = Some (Inr ((res, ql), out)) \<and>
               (\<forall>r. res = Some r \<longrightarrow>
                  length r = 9 \<and> (\<forall>i<9. length (r ! i) = 9 \<and> (\<forall>j<9. r ! i ! j \<noteq> 0)))"
    by blast
qed

theorem backtrack_complete_or_none_witness:
  "\<exists>s a1 lg1 s' lg2.
     enumerates ascending \<and>
     SudokuCSP grid_one_clue = Inr s \<and> csp_ok s \<and> good s [] \<and>
     backtrack ascending 0 (s, [], []) = Some (Inr (True, s, a1, lg1)) \<and>
     length a1 = 81 \<and> set (map fst a1) = set cells \<and>
     SudokuCSP grid_duplicate = Inr s' \<and> csp_ok s' \<and> good s' [] \<and>
     backtrack ascending 0 (s', [], []) = Some (Inr (False, s', [], lg2))"
proof -
  note e = enumerates_ascending
  from one_clue_search[OF e] obtain s a1 lg1 where
    s: "SudokuCSP grid_one_clue = Inr s" "csp_ok s"
    and b: "backtrack ascending 0 (s, [], []) = Some (Inr (True, s, a1, lg1))" by blast
  from duplicate_search[OF e] obtain s' lg2 where
    s': "SudokuCSP grid_duplicate = Inr s'" "csp_ok s'"
    and b': "backtrack ascending 0 (s', [], []) = Some (Inr (False, s', [], lg2))" by blast
  note th = backtrack_complete_or_none[OF e s(2) good_empty, of 0 "[]", THEN conjunct1]
  from th b have "length a1 = 81 \<and> set (map fst a1) = set cells" by auto
  with s b s' b' e good_empty[of s] good_empty[of s'] show ?thesis
    by (intro exI[of _ s] exI[of _ a1] exI[of _ lg1] exI[of _ s'] exI[of _ lg2])
       (simp only: simp_thms)
qed

text \<open>
  Claim C10. The search leaves the solver object as it was. A call of \<open>backtrack\<close> on a solver
  object and a consistent partial assignment, at any depth, returns the object with the same
  \<open>domains\<close>, \<open>neighbors\<close> and \<open>puzzle\<close>; so does \<open>backtracking_search\<close>; and so do the helpers
  that read the \<open>defaultdict\<close> of neighbours, \<open>is_consistent\<close> and \<open>least_constraining_values\<close>,
  for every cell.
\<close>

theorem backtracking_preserves_solver:
  assumes "enumerates it" and "csp_ok s" and "good s a"
  shows "(\<exists>found s1 a1 lg1.
            backtrack it d (s, a, lg) = Some (Inr (found, s1, a1, lg1)) \<and>
            domains s1 = domains s \<and> neighbors s1 = neighbors s \<and> puzzle s1 = puzzle s)
       \<and> (\<exists>found s1 a1 lg1.
            backtracking_search it s = Some (Inr (found, s1, a1, lg1)) \<and>
            domains s1 = domains s \<and> neighbors s1 = neighbors s \<and> puzzle s1 = puzzle s)
       \<and> (\<forall>var\<in>set cells. \<forall>v. snd (is_consistent it s var v a) = s)
       \<and> (\<forall>var\<in>set cells. \<exists>vals. least_constraining_values it s var a = Inr (vals, s))"
proof (intro conjI ballI allI)
  from backtrack_entry[OF assms, of d lg]
  show "\<exists>found s1 a1 lg1.
            backtrack it d (s, a, lg) = Some (Inr (found, s1, a1, lg1)) \<and>
            domains s1 = domains s \<and> neighbors s1 = neighbors s \<and> puzzle s1 = puzzle s"
    unfolding search_result_def backtrack_def by blast
next
  from backtrack_entry[OF assms(1,2) good_empty, of 0 "[]"]
  show "\<exists>found s1 a1 lg1.
            backtracking_search it s = Some (Inr (found, s1, a1, lg1)) \<and>
            domains s1 = domains s \<and> neighbors s1 = neighbors s \<and> puzzle s1 = puzzle s"
    unfolding search_result_def backtracking_search_def backtrack_def by blast
next
  fix var v assume "var \<in> set cells"
  from is_consistent_ok[OF assms(1,2) this] show "snd (is_consistent it s var v a) = s" by simp
next
  fix var assume "var \<in> set cells"
  from least_constraining_values_ok[OF assms(1,2) this]
  show "\<exists>vals. least_constraining_values it s var a = Inr (vals, s)" by blast
qed

theorem backtracking_preserves_solver_witness:
  "\<exists>s a1 lg1.
     enumerates ascending \<and> SudokuCSP grid_one_clue = Inr s \<and> csp_ok s \<and> good s [] \<and>
     backtracking_search ascending s = Some (Inr (True, s, a1, lg1)) \<and> length a1 = 81 \<and>
     snd (is_consistent ascending s (0, 0) 5 []) = s"
proof -
  note e = enumerates_ascending
  from one_clue_search[OF e] obtain s a1 lg1 where
    s: "SudokuCSP grid_one_clue = Inr s" "csp_ok s"
    and b: "backtrack ascending 0 (s, [], []) = Some (Inr (True, s, a1, lg1))"
    and l: "length a1 = 81" by blast
  have c: "(0, 0) \<in> set cells" by (simp add: in_cells_iff)
  note th = backtracking_preserves_solver[OF e s(2) good_empty, of 0 "[]",
      THEN conjunct2, THEN conjunct2, THEN conjunct1, rule_format, OF c, of 5]
  from b have "backtracking_search ascending s = Some (Inr (True, s, a1, lg1))"
    by (simp add: backtracking_search_def)
  with th s l e good_empty[of s] show ?thesis
    by (intro exI[of _ s] exI[of _ a1] exI[of _ lg1]) (simp only: simp_thms)
qed

section \<open>Bounds on the worklist and on the recursion\<close>










end
